theory Spec2Isabelle
  imports Complex_Main "HOL-Library.Word" "HOL-Library.Product_Lexorder"
begin

unbundle bit_operations_syntax

section \<open>Data model of \<open>jakubelib.h\<close>\<close>

text \<open>
  The only instantiation in the repository is
  \<open>JakubeIndex<int, int32_t, Hamming, Kiss64Random<uint64_t>>\<close> (bindings and test), so
  \<open>S = int\<close> and \<open>T = int32_t\<close>: every field of a node, of the file header and of the
  roots array is four bytes wide and four-byte aligned. The arena and a file are therefore
  sequences of 32-bit cells; \<open>S\<close> and \<open>T\<close> values are read from a cell with \<open>sint\<close>.
\<close>

type_synonym cell = "32 word"

text \<open>
  \<open>Failed msg\<close>: the operation called \<open>set_error_from_string\<close> or
  \<open>set_error_from_errno\<close> with \<open>msg\<close> and returned \<open>false\<close>.
  \<open>BadAlloc\<close>: \<open>_allocate_size\<close> threw \<open>std::bad_alloc\<close>.
  \<open>LengthError\<close>: \<open>std::vector::resize\<close> threw on a size beyond \<open>max_size()\<close>.
  \<open>Fault\<close>: a read or write outside the buffer it addresses (undefined behaviour in C++).
\<close>

datatype error = Failed string | BadAlloc | LengthError | Fault

text \<open>
  \<open>_nodes\<close> is a \<open>void*\<close>: \<open>NULL\<close>, a buffer from \<open>realloc\<close> or a read-only mapping
  from \<open>mmap\<close>.
\<close>

datatype arena = Heap "cell list" | Mapped "cell list"

fun cells :: "arena \<Rightarrow> cell list" where
  "cells (Heap a) = a"
| "cells (Mapped a) = a"

text \<open>
  The members of \<open>JakubeIndex\<close>, without their leading underscore; \<open>_f\<close> and \<open>_K\<close>
  are \<open>f_dim\<close> and \<open>K_grp\<close>. \<open>_s\<close> is a function of \<open>_f\<close> (\<open>s_bytes\<close> below).
\<close>

record 'r JakubeIndex =
  f_dim :: nat
  n_items :: int
  nodes :: "arena option"
  n_nodes :: int
  nodes_size :: int
  roots :: "int list"
  K_grp :: int
  random :: 'r
  verbose :: bool
  built :: bool
  fd :: int

text \<open>
  What the allocator hands out: \<open>junk\<close> is the content of the cells that \<open>realloc\<close>
  returns without initialising them and \<open>stack\<close> that of the cells of an \<open>alloca\<close>
  block (both indexed by cell offset); \<open>heap_limit\<close> is the number of bytes beyond
  which \<open>realloc\<close> returns \<open>NULL\<close>.
\<close>

record heap_env =
  junk :: "nat \<Rightarrow> cell"
  stack :: "nat \<Rightarrow> cell"
  heap_limit :: nat

text \<open>
  \<open>kissrandom.h\<close> is not among the sources, and \<open>Random\<close> is a template parameter of
  \<open>JakubeIndex\<close>: the operations the index calls on it are taken as parameters, each
  returning its result and the next generator state.
\<close>

record 'r random_ops =
  rnd_index :: "nat \<Rightarrow> 'r \<Rightarrow> nat \<times> 'r"
  rnd_flip :: "'r \<Rightarrow> bool \<times> 'r"
  rnd_set_seed :: "64 word \<Rightarrow> 'r \<Rightarrow> 'r"

text \<open>
  \<open>struct Node { S n_descendants; S children[2]; T v[...]; }\<close>:
  \<open>offsetof(Node, children) = 4\<close>, \<open>offsetof(Node, v) = 12\<close>, \<open>sizeof(S) = sizeof(T) = 4\<close>.
\<close>

definition s_bytes :: "nat \<Rightarrow> nat" where
  "s_bytes f = 12 + f * 4"

definition s_cells :: "nat \<Rightarrow> nat" where
  "s_cells f = s_bytes f div 4"

definition K_of :: "nat \<Rightarrow> int" where
  "K_of f = int ((s_bytes f - 4) div 4) - 2"

text \<open>The constructor \<open>JakubeIndex(int f)\<close>; \<open>rnd\<close> is the default-constructed \<open>Random\<close>.\<close>

definition JakubeIndex :: "nat \<Rightarrow> 'r \<Rightarrow> 'r JakubeIndex" where
  "JakubeIndex f rnd =
     \<lparr>f_dim = f, n_items = 0, nodes = None, n_nodes = 0, nodes_size = 0, roots = [],
      K_grp = K_of f, random = rnd, verbose = False, built = False, fd = 0\<rparr>"

subsection \<open>Reading and writing the arena\<close>

definition cell_at :: "arena option \<Rightarrow> int \<Rightarrow> error + cell" where
  "cell_at a i =
     (case a of
        None \<Rightarrow> Inl Fault
      | Some b \<Rightarrow> if 0 \<le> i \<and> nat i < length (cells b) then Inr (cells b ! nat i) else Inl Fault)"

definition block_at :: "arena option \<Rightarrow> int \<Rightarrow> nat \<Rightarrow> error + cell list" where
  "block_at a i n =
     (case a of
        None \<Rightarrow> Inl Fault
      | Some b \<Rightarrow> if 0 \<le> i \<and> nat i + n \<le> length (cells b)
                  then Inr (take n (drop (nat i) (cells b))) else Inl Fault)"

text \<open>\<open>memcpy\<close> of the cells \<open>ws\<close> to offset \<open>i\<close> of a buffer.\<close>

definition patch :: "cell list \<Rightarrow> nat \<Rightarrow> cell list \<Rightarrow> cell list" where
  "patch b i ws = take i b @ ws @ drop (i + length ws) b"

definition poke_block :: "arena option \<Rightarrow> int \<Rightarrow> cell list \<Rightarrow> error + arena option" where
  "poke_block a i ws =
     (case a of
        Some (Heap b) \<Rightarrow>
          if 0 \<le> i \<and> nat i + length ws \<le> length b
          then Inr (Some (Heap (patch b (nat i) ws)))
          else Inl Fault
      | _ \<Rightarrow> Inl Fault)"

text \<open>\<open>_get(i)\<close> is \<open>_nodes + _s * i\<close>; the fields of the node it points to.\<close>

definition node_base :: "'r JakubeIndex \<Rightarrow> int \<Rightarrow> int" where
  "node_base st i = int (s_cells (f_dim st)) * i"

definition node_n_descendants :: "'r JakubeIndex \<Rightarrow> int \<Rightarrow> error + int" where
  "node_n_descendants st i = map_sum id sint (cell_at (nodes st) (node_base st i))"

definition node_child :: "'r JakubeIndex \<Rightarrow> int \<Rightarrow> int \<Rightarrow> error + int" where
  "node_child st i k = map_sum id sint (cell_at (nodes st) (node_base st i + 1 + k))"

definition node_v :: "'r JakubeIndex \<Rightarrow> int \<Rightarrow> error + cell list" where
  "node_v st i =
     (if 0 \<le> i then block_at (nodes st) (node_base st i + 3) (f_dim st) else Inl Fault)"

subsection \<open>\<open>_allocate_size\<close>\<close>

text \<open>
  \<open>(S)((_nodes_size + 1) * 1.3)\<close>: the conversion truncates towards zero. For every
  32-bit \<open>_nodes_size\<close> the double product lies within \<open>10\<^sup>-\<^sup>6\<close> of the exact one, whose
  fractional part is a multiple of \<open>0.1\<close>, so the truncation is that of the exact product.
  A product beyond \<open>INT_MAX\<close> has no defined conversion, and \<open>realloc\<close> of a
  mapping is no allocation: both are faults. \<open>realloc\<close> keeps the old content and
  leaves the rest uninitialised.
\<close>

definition grow13 :: "int \<Rightarrow> int" where
  "grow13 x = (if 0 \<le> x then (x * 13) div 10 else - ((- x * 13) div 10))"

definition realloc :: "heap_env \<Rightarrow> arena option \<Rightarrow> nat \<Rightarrow> arena" where
  "realloc h a n =
     (case a of
        None \<Rightarrow> Heap (map (junk h) [0..<n])
      | Some b \<Rightarrow> Heap (take n (cells b) @ map (junk h) [length (cells b)..<n]))"

definition allocate_size :: "heap_env \<Rightarrow> int \<Rightarrow> 'r JakubeIndex \<Rightarrow> error + 'r JakubeIndex" where
  "allocate_size h n st =
     (if n > nodes_size st then
        let new_nodes_size = max n (grow13 (nodes_size st + 1));
            bytes = nat ((int (s_bytes (f_dim st)) * new_nodes_size) mod 2 ^ 64)
        in if 2 ^ 31 - 1 < new_nodes_size
              \<or> (case nodes st of Some (Mapped b) \<Rightarrow> True | _ \<Rightarrow> False)
           then Inl Fault
           else if bytes = 0 \<or> heap_limit h < bytes then Inl BadAlloc
           else Inr (st\<lparr>nodes := Some (realloc h (nodes st) (bytes div 4)),
                        nodes_size := new_nodes_size\<rparr>)
      else Inr st)"

section \<open>The Hamming metric\<close>

text \<open>
  \<open>jakubelib_popcount\<close> is \<open>__builtin_popcountll\<close> (every compiler but MSVC; the test
  is built with g++): the number of one bits of an \<open>unsigned long long\<close>.
\<close>

fun popcount_nat :: "nat \<Rightarrow> nat" where
  "popcount_nat n = (if n = 0 then 0 else n mod 2 + popcount_nat (n div 2))"

declare popcount_nat.simps [simp del]

definition popcountll :: "64 word \<Rightarrow> nat" where
  "popcountll x = popcount_nat (unat x)"

text \<open>
  \<open>Hamming::distance\<close>: \<open>x->v[i] ^ y->v[i]\<close> is an \<open>int\<close>; passing it to
  \<open>__builtin_popcountll\<close> converts it to \<open>unsigned long long\<close>, which sign-extends.
  The accumulator \<open>dist\<close> is a \<open>size_t\<close>; the loop runs over the \<open>f\<close> words of both nodes.
\<close>

fun distance_loop :: "cell list \<Rightarrow> cell list \<Rightarrow> nat \<Rightarrow> nat" where
  "distance_loop (x # xs) (y # ys) d =
     distance_loop xs ys (d + popcountll (scast (x XOR y)))"
| "distance_loop _ _ d = d"

text \<open>The \<open>size_t\<close> result is returned as \<open>T = int32_t\<close>.\<close>

definition T_of_size_t :: "nat \<Rightarrow> int" where
  "T_of_size_t n = sint (word_of_nat n :: 32 word)"

definition distance :: "cell list \<Rightarrow> cell list \<Rightarrow> int" where
  "distance x y = T_of_size_t (distance_loop x y 0 mod 2 ^ 64)"

text \<open>
  \<open>Hamming::margin(n, y, f)\<close>: \<open>n->v[0]\<close> is converted to \<open>size_t\<close> for the division
  and the remainder by \<open>n_bits = 32\<close>; reading \<open>y[chunk]\<close> beyond the \<open>f\<close> words of \<open>y\<close>
  is a fault.
\<close>

definition size_t_of_int :: "int \<Rightarrow> nat" where
  "size_t_of_int k = nat (k mod 2 ^ 64)"

definition margin :: "cell \<Rightarrow> cell list \<Rightarrow> error + bool" where
  "margin v0 y =
     (let b = size_t_of_int (sint v0); chunk = b div 32
      in if chunk < length y
         then Inr ((y ! chunk) AND push_bit (32 - 1 - b mod 32) 1 \<noteq> 0)
         else Inl Fault)"

definition pq_distance :: "int \<Rightarrow> bool \<Rightarrow> bool \<Rightarrow> int" where
  "pq_distance d mg child_nr = d - (if mg \<noteq> child_nr then 1 else 0)"

definition pq_initial_value :: int where
  "pq_initial_value = 2 ^ 31 - 1"

section \<open>Adding and reading items\<close>

text \<open>
  \<open>add_item(item, w)\<close>: \<open>w\<close> points to the caller's values, of which \<open>_f\<close> are copied;
  the binding passes a vector of exactly \<open>_f\<close> values. \<open>item + 1\<close> overflows at
  \<open>INT_MAX\<close>.
\<close>

definition add_item ::
  "heap_env \<Rightarrow> int \<Rightarrow> cell list \<Rightarrow> 'r JakubeIndex \<Rightarrow> error + 'r JakubeIndex" where
  "add_item h item w st =
     (if built st then Inl (Failed ''Index already built, cannot add more items'')
      else if 2 ^ 31 - 1 \<le> item \<or> length w < f_dim st then Inl Fault
      else case allocate_size h (item + 1) st of
             Inl e \<Rightarrow> Inl e
           | Inr st1 \<Rightarrow>
              (case poke_block (nodes st1) (node_base st1 item) [1] of
                 Inl e \<Rightarrow> Inl e
               | Inr a1 \<Rightarrow>
                  (case poke_block a1 (node_base st1 item + 3) (take (f_dim st) w) of
                     Inl e \<Rightarrow> Inl e
                   | Inr a2 \<Rightarrow>
                       Inr (st1\<lparr>nodes := a2,
                                n_items := (if item \<ge> n_items st1 then item + 1
                                            else n_items st1)\<rparr>))))"

text \<open>A sequence of \<open>add_item\<close> calls, up to the first one that fails.\<close>

fun add_items ::
  "heap_env \<Rightarrow> (int \<times> cell list) list \<Rightarrow> 'r JakubeIndex \<Rightarrow> error + 'r JakubeIndex" where
  "add_items h [] st = Inr st"
| "add_items h ((item, w) # rest) st =
     (case add_item h item w st of Inl e \<Rightarrow> Inl e | Inr st' \<Rightarrow> add_items h rest st')"

definition get_item :: "'r JakubeIndex \<Rightarrow> int \<Rightarrow> error + cell list" where
  "get_item st item = node_v st item"

definition get_distance :: "'r JakubeIndex \<Rightarrow> int \<Rightarrow> int \<Rightarrow> error + int" where
  "get_distance st i j =
     (case node_v st i of
        Inl e \<Rightarrow> Inl e
      | Inr x \<Rightarrow> (case node_v st j of Inl e \<Rightarrow> Inl e | Inr y \<Rightarrow> Inr (distance x y)))"

section \<open>Building the forest\<close>

subsection \<open>\<open>Hamming::create_split\<close>\<close>

text \<open>The inner loop: how many of the candidate nodes lie on the right of bit \<open>v0\<close>.\<close>

fun count_right :: "cell \<Rightarrow> cell list list \<Rightarrow> nat \<Rightarrow> error + nat" where
  "count_right v0 [] cur_size = Inr cur_size"
| "count_right v0 (y # ys) cur_size =
     (case margin v0 y of
        Inl e \<Rightarrow> Inl e
      | Inr b \<Rightarrow> count_right v0 ys (if b then cur_size + 1 else cur_size))"

text \<open>
  The loop of at most \<open>max_iterations = 20\<close> random bits. It returns the final \<open>i\<close>,
  the bit left in \<open>n->v[0]\<close> and the generator state.
\<close>

function random_tries ::
  "'r random_ops \<Rightarrow> cell list list \<Rightarrow> nat \<Rightarrow> nat \<Rightarrow> cell \<Rightarrow> 'r \<Rightarrow> error + (nat \<times> cell \<times> 'r)" where
  "random_tries ops ys dm i v0 r =
     (if i < 20 then
        (case rnd_index ops dm r of
           (x, r') \<Rightarrow>
             (case count_right (word_of_nat x) ys 0 of
                Inl e \<Rightarrow> Inl e
              | Inr cur_size \<Rightarrow>
                  if cur_size > 0 \<and> cur_size < length ys then Inr (i, word_of_nat x, r')
                  else random_tries ops ys dm (i + 1) (word_of_nat x) r'))
      else Inr (i, v0, r))"
  by pat_completeness auto
termination
  by (relation "measure (\<lambda>(ops, ys, dm, i, v0, r). 20 - i)") auto

text \<open>The brute-force scan \<open>j = 0, 1, \<dots>, dim - 1\<close>.\<close>

function brute_force :: "cell list list \<Rightarrow> nat \<Rightarrow> nat \<Rightarrow> cell \<Rightarrow> error + cell" where
  "brute_force ys dm j v0 =
     (if j < dm then
        (case count_right (word_of_nat j) ys 0 of
           Inl e \<Rightarrow> Inl e
         | Inr cur_size \<Rightarrow>
             if cur_size > 0 \<and> cur_size < length ys then Inr (word_of_nat j)
             else brute_force ys dm (j + 1) (word_of_nat j))
      else Inr v0)"
  by pat_completeness auto
termination
  by (relation "measure (\<lambda>(ys, dm, j, v0). dm - j)") auto

definition create_split ::
  "'r random_ops \<Rightarrow> cell list list \<Rightarrow> nat \<Rightarrow> cell \<Rightarrow> 'r \<Rightarrow> error + (cell \<times> 'r)" where
  "create_split ops ys f v0 r =
     (let dm = f * 8 * 4
      in case random_tries ops ys dm 0 v0 r of
           Inl e \<Rightarrow> Inl e
         | Inr (i, v0', r') \<Rightarrow>
             if i = 20 then map_sum id (\<lambda>v. (v, r')) (brute_force ys dm 0 v0')
             else Inr (v0', r'))"

subsection \<open>\<open>_split_imbalance\<close>\<close>

text \<open>
  The sizes are converted to \<open>double\<close> and divided. A quotient of two positive sizes that
  is at least one in exact arithmetic is at least \<open>1.0\<close> after rounding, and the other
  results are \<open>1.0\<close> itself, so the comparisons with \<open>0.95\<close> and \<open>0.99\<close> made by
  \<open>_make_tree\<close> come out as they do on the exact quotients.
\<close>

definition split_imbalance :: "int list \<Rightarrow> int list \<Rightarrow> rat" where
  "split_imbalance left right =
     (let ls = of_nat (length left); rs = of_nat (length right)
      in if ls = 0 \<or> rs = 0 then 1 else max (ls / rs) (rs / ls))"

subsection \<open>\<open>_make_tree\<close>\<close>

text \<open>The \<open>v\<close> areas of the nodes \<open>_get(j)\<close> for \<open>j\<close> in \<open>indices\<close>.\<close>

fun node_vs :: "'r JakubeIndex \<Rightarrow> int list \<Rightarrow> error + cell list list" where
  "node_vs st [] = Inr []"
| "node_vs st (j # js) =
     (case node_v st j of
        Inl e \<Rightarrow> Inl e
      | Inr y \<Rightarrow> map_sum id (Cons y) (node_vs st js))"

text \<open>Partitioning \<open>indices\<close> by \<open>D::side\<close> into \<open>children_indices[0]\<close> and \<open>[1]\<close>.\<close>

fun partition_by_side ::
  "'r JakubeIndex \<Rightarrow> cell \<Rightarrow> int list \<Rightarrow> int list \<times> int list \<Rightarrow> error + (int list \<times> int list)" where
  "partition_by_side st v0 [] c = Inr c"
| "partition_by_side st v0 (j # js) (c0, c1) =
     (case node_v st j of
        Inl e \<Rightarrow> Inl e
      | Inr y \<Rightarrow>
          (case margin v0 y of
             Inl e \<Rightarrow> Inl e
           | Inr side \<Rightarrow>
               partition_by_side st v0 js (if side then (c0, c1 @ [j]) else (c0 @ [j], c1))))"

text \<open>One pass of the body of the \<open>for (attempt \<dots>)\<close> loop, up to its \<open>if\<close>.\<close>

definition split_attempt ::
  "'r random_ops \<Rightarrow> 'r JakubeIndex \<Rightarrow> int list \<Rightarrow> cell list list \<Rightarrow> cell \<Rightarrow> 'r
   \<Rightarrow> error + ((int list \<times> int list) \<times> cell \<times> 'r)" where
  "split_attempt ops st indices ys v0 r =
     (case create_split ops ys (f_dim st) v0 r of
        Inl e \<Rightarrow> Inl e
      | Inr (v0', r') \<Rightarrow>
          map_sum id (\<lambda>c. (c, v0', r')) (partition_by_side st v0' indices ([], [])))"

text \<open>
  The loop \<open>for (int attempt = 0; attempt < 3; attempt++)\<close>. The result carries the
  value of \<open>attempt\<close> on exit: the pass that took the \<open>break\<close>, or 3.
\<close>

function split_loop ::
  "'r random_ops \<Rightarrow> 'r JakubeIndex \<Rightarrow> int list \<Rightarrow> cell list list \<Rightarrow> nat
   \<Rightarrow> (int list \<times> int list) \<Rightarrow> cell \<Rightarrow> 'r
   \<Rightarrow> error + ((int list \<times> int list) \<times> cell \<times> 'r \<times> nat)" where
  "split_loop ops st indices ys attempt c v0 r =
     (if attempt < 3 then
        (case split_attempt ops st indices ys v0 r of
           Inl e \<Rightarrow> Inl e
         | Inr (c', v0', r') \<Rightarrow>
             if split_imbalance (fst c') (snd c') < 95 / 100 then Inr (c', v0', r', attempt)
             else split_loop ops st indices ys (attempt + 1) c' v0' r')
      else Inr (c, v0, r, attempt))"
  by pat_completeness auto
termination
  by (relation "measure (\<lambda>(ops, st, indices, ys, attempt, c, v0, r). 3 - attempt)") auto

text \<open>The body of the fallback loop: every id goes to the side \<open>_random.flip()\<close> names.\<close>

fun flip_partition ::
  "'r random_ops \<Rightarrow> int list \<Rightarrow> (int list \<times> int list) \<Rightarrow> 'r \<Rightarrow> (int list \<times> int list) \<times> 'r" where
  "flip_partition ops [] c r = (c, r)"
| "flip_partition ops (j # js) (c0, c1) r =
     (case rnd_flip ops r of
        (b, r') \<Rightarrow> flip_partition ops js (if b then (c0, c1 @ [j]) else (c0 @ [j], c1)) r')"

text \<open>
  The loop \<open>while (_split_imbalance(\<dots>) > 0.99)\<close>. The first argument bounds the number
  of passes; \<open>None\<close> says that the loop has not left within them.
\<close>

fun fallback_loop ::
  "nat \<Rightarrow> 'r random_ops \<Rightarrow> int list \<Rightarrow> (int list \<times> int list) \<Rightarrow> 'r
   \<Rightarrow> ((int list \<times> int list) \<times> 'r) option" where
  "fallback_loop fuel ops indices c r =
     (if split_imbalance (fst c) (snd c) > 99 / 100 then
        (case fuel of
           0 \<Rightarrow> None
         | Suc n \<Rightarrow>
             (case flip_partition ops indices ([], []) r of
                (c', r') \<Rightarrow> fallback_loop n ops indices c' r'))
      else Some (c, r))"

text \<open>
  Appending a node image: \<open>_allocate_size(_n_nodes + 1); item = _n_nodes++\<close> and the
  write of \<open>img\<close> at the offset \<open>off\<close> (in cells) of the new node.
\<close>

definition append_node ::
  "heap_env \<Rightarrow> nat \<Rightarrow> cell list \<Rightarrow> 'r JakubeIndex \<Rightarrow> error + (int \<times> 'r JakubeIndex)" where
  "append_node h off img st =
     (case allocate_size h (n_nodes st + 1) st of
        Inl e \<Rightarrow> Inl e
      | Inr st1 \<Rightarrow>
          (let item = n_nodes st1
           in case poke_block (nodes st1) (node_base st1 item + int off) img of
                Inl e \<Rightarrow> Inl e
              | Inr a \<Rightarrow> Inr (item, st1\<lparr>nodes := a, n_nodes := item + 1\<rparr>)))"

text \<open>
  The group node of the second shortcut: \<open>n_descendants\<close> and then
  \<open>children[0 .. size)\<close>, which run on into the \<open>v\<close> area.
\<close>

definition make_group :: "heap_env \<Rightarrow> int list \<Rightarrow> 'r JakubeIndex \<Rightarrow> error + (int \<times> 'r JakubeIndex)" where
  "make_group h indices st =
     append_node h 0 (word_of_nat (length indices) # map word_of_int indices) st"

text \<open>
  The image of the \<open>alloca\<close> block \<open>m\<close> when it is copied into the arena: only
  \<open>n_descendants\<close>, the two children and \<open>v[0]\<close> have been written.
\<close>

definition m_image :: "heap_env \<Rightarrow> nat \<Rightarrow> int \<Rightarrow> int \<Rightarrow> int \<Rightarrow> cell \<Rightarrow> cell list" where
  "m_image h f n_desc child0 child1 v0 =
     [word_of_int n_desc, word_of_int child0, word_of_int child1, v0]
       @ map (stack h) [4..<s_cells f]"

text \<open>
  \<open>_make_tree\<close>, with a bound on the depth of calls and on the passes of each fallback
  loop; \<open>None\<close> says that the bound was reached. The node vectors are read before the
  split, \<open>m->v[0]\<close> starts as whatever the stack holds.
\<close>

fun make_tree ::
  "nat \<Rightarrow> 'r random_ops \<Rightarrow> heap_env \<Rightarrow> int list \<Rightarrow> bool \<Rightarrow> 'r JakubeIndex
   \<Rightarrow> (error + (int \<times> 'r JakubeIndex)) option" where
  "make_tree 0 ops h indices is_root st = None"
| "make_tree (Suc fuel) ops h indices is_root st =
     (if length indices = 1 \<and> \<not> is_root then Some (Inr (indices ! 0, st))
      else if length indices \<le> size_t_of_int (K_grp st) \<and> \<not> is_root
      then Some (make_group h indices st)
      else
        (case node_vs st indices of
           Inl e \<Rightarrow> Some (Inl e)
         | Inr ys \<Rightarrow>
            (case split_loop ops st indices ys 0 ([], []) (stack h 3) (random st) of
               Inl e \<Rightarrow> Some (Inl e)
             | Inr (c, v0, r, attempt) \<Rightarrow>
                (case fallback_loop fuel ops indices c r of
                   None \<Rightarrow> None
                 | Some ((c0, c1), r') \<Rightarrow>
                    (let flip = (length c0 > length c1);
                         n_desc = (if is_root then n_items st else int (length indices))
                     in case make_tree fuel ops h (if flip then c1 else c0) False
                               (st\<lparr>random := r'\<rparr>) of
                          None \<Rightarrow> None
                        | Some (Inl e) \<Rightarrow> Some (Inl e)
                        | Some (Inr (first, st1)) \<Rightarrow>
                           (case make_tree fuel ops h (if flip then c0 else c1) False st1 of
                              None \<Rightarrow> None
                            | Some (Inl e) \<Rightarrow> Some (Inl e)
                            | Some (Inr (second, st2)) \<Rightarrow>
                                Some (append_node h 0
                                  (m_image h (f_dim st) n_desc
                                     (if flip then second else first)
                                     (if flip then first else second) v0) st2)))))))"

subsection \<open>\<open>build\<close>\<close>

text \<open>The loop \<open>for (int i = 0; i < q; i++)\<close>, by the number of passes still to run.\<close>

fun build_trees ::
  "nat \<Rightarrow> 'r random_ops \<Rightarrow> heap_env \<Rightarrow> nat \<Rightarrow> 'r JakubeIndex \<Rightarrow> (error + 'r JakubeIndex) option" where
  "build_trees fuel ops h 0 st = Some (Inr st)"
| "build_trees fuel ops h (Suc n) st =
     (case make_tree fuel ops h (map int [0..<nat (n_items st)]) True st of
        None \<Rightarrow> None
      | Some (Inl e) \<Rightarrow> Some (Inl e)
      | Some (Inr (rt, st')) \<Rightarrow> build_trees fuel ops h n (st'\<lparr>roots := roots st' @ [rt]\<rparr>))"

definition build ::
  "nat \<Rightarrow> 'r random_ops \<Rightarrow> heap_env \<Rightarrow> int \<Rightarrow> 'r JakubeIndex \<Rightarrow> (error + 'r JakubeIndex) option" where
  "build fuel ops h q st =
     (if built st then Some (Inl (Failed ''Index already built''))
      else if n_items st = 0 then Some (Inl (Failed ''No items added''))
      else
        (case build_trees fuel ops h (nat q) (st\<lparr>n_nodes := n_items st\<rparr>) of
           None \<Rightarrow> None
         | Some (Inl e) \<Rightarrow> Some (Inl e)
         | Some (Inr st') \<Rightarrow> Some (Inr (st'\<lparr>built := True\<rparr>))))"

definition unbuild :: "'r JakubeIndex \<Rightarrow> error + 'r JakubeIndex" where
  "unbuild st =
     (if \<not> built st then Inl (Failed ''Index not built'')
      else Inr (st\<lparr>roots := [], n_nodes := n_items st, built := False\<rparr>))"

definition set_seed :: "'r random_ops \<Rightarrow> 64 word \<Rightarrow> 'r JakubeIndex \<Rightarrow> 'r JakubeIndex" where
  "set_seed ops seed st = st\<lparr>random := rnd_set_seed ops seed (random st)\<rparr>"

section \<open>Queries\<close>

text \<open>
  \<open>search_k\<close> is an \<open>int\<close>. Only the value \<open>-1\<close> is replaced, by the \<open>size_t\<close> product
  \<open>n * _roots.size()\<close> converted to \<open>int\<close>; the loop then compares \<open>nns.size()\<close> with
  \<open>(size_t)search_k\<close>.
\<close>

definition int_of_size_t :: "nat \<Rightarrow> int" where
  "int_of_size_t n = sint (word_of_nat n :: 32 word)"

definition search_limit :: "nat \<Rightarrow> nat \<Rightarrow> int \<Rightarrow> nat" where
  "search_limit n n_roots search_k =
     size_t_of_int (if search_k = - 1 then int_of_size_t ((n * n_roots) mod 2 ^ 64)
                    else search_k)"

text \<open>
  The inline ids of a group node: \<open>nns.insert(nns.end(), dst, &dst[nd->n_descendants])\<close>
  with \<open>dst = nd->children\<close>; a negative count is not a range.
\<close>

definition node_children :: "'r JakubeIndex \<Rightarrow> int \<Rightarrow> int \<Rightarrow> error + int list" where
  "node_children st i n =
     (if n < 0 then Inl Fault
      else map_sum id (map sint) (block_at (nodes st) (node_base st i + 1) (nat n)))"

text \<open>
  The traversal loop. The \<open>std::priority_queue<pair<T, S>>\<close> is kept as the list of its
  entries; \<open>top()\<close> is the greatest pair in the lexicographic order. The first argument
  bounds the number of passes; \<open>None\<close> says that the loop has not left within them. Keys
  are decremented as mathematical integers: \<open>INT_MIN\<close> is \<open>2\<^sup>3\<^sup>2\<close> decrements away.
\<close>

fun gather ::
  "nat \<Rightarrow> 'r JakubeIndex \<Rightarrow> cell list \<Rightarrow> nat \<Rightarrow> (int \<times> int) list \<Rightarrow> int list
   \<Rightarrow> (error + int list) option" where
  "gather fuel st v limit q nns =
     (if length nns < limit \<and> q \<noteq> [] then
        (case fuel of
           0 \<Rightarrow> None
         | Suc n \<Rightarrow>
            (let top = fold max (tl q) (hd q); d = fst top; i = snd top; q' = remove1 top q
             in case node_n_descendants st i of
                  Inl e \<Rightarrow> Some (Inl e)
                | Inr nd \<Rightarrow>
                   if nd = 1 \<and> i < n_items st then gather n st v limit q' (nns @ [i])
                   else if nd \<le> K_grp st then
                     (case node_children st i nd of
                        Inl e \<Rightarrow> Some (Inl e)
                      | Inr dst \<Rightarrow> gather n st v limit q' (nns @ dst))
                   else
                     (case cell_at (nodes st) (node_base st i + 3) of
                        Inl e \<Rightarrow> Some (Inl e)
                      | Inr v0 \<Rightarrow>
                         (case margin v0 v of
                            Inl e \<Rightarrow> Some (Inl e)
                          | Inr mg \<Rightarrow>
                             (case node_child st i 1 of
                                Inl e \<Rightarrow> Some (Inl e)
                              | Inr c1 \<Rightarrow>
                                 (case node_child st i 0 of
                                    Inl e \<Rightarrow> Some (Inl e)
                                  | Inr c0 \<Rightarrow>
                                     gather n st v limit
                                       ((pq_distance d mg False, c0)
                                          # (pq_distance d mg True, c1) # q') nns))))))
      else Some (Inr nns))"

text \<open>
  The loop over the sorted candidates: duplicates are skipped through \<open>last\<close>, which starts
  at \<open>-1\<close>; a candidate whose node has \<open>n_descendants == 1\<close> is paired with its distance
  to the query.
\<close>

fun rerank :: "'r JakubeIndex \<Rightarrow> cell list \<Rightarrow> int \<Rightarrow> int list \<Rightarrow> error + (int \<times> int) list" where
  "rerank st v_node lst [] = Inr []"
| "rerank st v_node lst (j # js) =
     (if j = lst then rerank st v_node lst js
      else
        (case node_n_descendants st j of
           Inl e \<Rightarrow> Inl e
         | Inr nd \<Rightarrow>
            if nd = 1 then
              (case node_v st j of
                 Inl e \<Rightarrow> Inl e
               | Inr y \<Rightarrow> map_sum id (Cons (distance v_node y, j)) (rerank st v_node j js))
            else rerank st v_node j js))"

text \<open>
  \<open>_get_all_nns(v, n, search_k, result, distances)\<close>. \<open>std::sort\<close> orders the candidates,
  \<open>std::partial_sort\<close> leaves the \<open>p\<close> least pairs in ascending order at the front; the
  result is the pair of \<open>result\<close> and \<open>distances\<close>.
\<close>

definition get_all_nns ::
  "nat \<Rightarrow> 'r JakubeIndex \<Rightarrow> cell list \<Rightarrow> nat \<Rightarrow> int \<Rightarrow> (error + (int list \<times> int list)) option" where
  "get_all_nns fuel st v n search_k =
     (if length v < f_dim st then Some (Inl Fault)
      else
        (case gather fuel st v (search_limit n (length (roots st)) search_k)
                (map (\<lambda>r. (pq_initial_value, r)) (roots st)) [] of
           None \<Rightarrow> None
         | Some (Inl e) \<Rightarrow> Some (Inl e)
         | Some (Inr nns) \<Rightarrow>
            (case rerank st (take (f_dim st) v) (- 1) (sort nns) of
               Inl e \<Rightarrow> Some (Inl e)
             | Inr nns_dist \<Rightarrow>
                (let m = length nns_dist; p = (if n < m then n else m);
                     best = take p (sort nns_dist)
                 in Some (Inr (map snd best, map fst best))))))"

definition get_nns_by_vector ::
  "nat \<Rightarrow> 'r JakubeIndex \<Rightarrow> cell list \<Rightarrow> nat \<Rightarrow> int \<Rightarrow> (error + (int list \<times> int list)) option" where
  "get_nns_by_vector fuel st w n search_k = get_all_nns fuel st w n search_k"

definition get_nns_by_item ::
  "nat \<Rightarrow> 'r JakubeIndex \<Rightarrow> int \<Rightarrow> nat \<Rightarrow> int \<Rightarrow> (error + (int list \<times> int list)) option" where
  "get_nns_by_item fuel st item n search_k =
     (case node_v st item of
        Inl e \<Rightarrow> Some (Inl e)
      | Inr w \<Rightarrow> get_all_nns fuel st w n search_k)"

section \<open>Persistence\<close>

text \<open>
  The part of the operating system the index talks to: the content of each file (in cells,
  as every field written is four bytes wide), whether a path can be opened for writing,
  whether \<open>mmap\<close> grants a mapping of a given length in bytes, the size of a page in
  bytes, and the descriptor that a successful \<open>open\<close> returns. \<open>write\<close> and \<open>read\<close> on
  an open descriptor are taken not to fail; a \<open>read\<close> at the end of the file transfers
  nothing and leaves its destination as it was.
\<close>

record os_env =
  files :: "string \<Rightarrow> cell list option"
  writable :: "string \<Rightarrow> bool"
  mappable :: "nat \<Rightarrow> bool"
  page_bytes :: nat
  new_fd :: int

text \<open>
  What can be read through a shared mapping of \<open>bytes\<close> bytes from offset 0 of a file:
  the mapping consists of whole pages; in the pages that hold part of the file, the file's
  cells are followed by zeros up to the end of its last page; a page of the mapping wholly
  past the end of the file cannot be read.
\<close>

definition page_up :: "nat \<Rightarrow> nat \<Rightarrow> nat" where
  "page_up page n = ((n + page - 1) div page) * page"

definition mapped_cells :: "nat \<Rightarrow> cell list \<Rightarrow> nat \<Rightarrow> cell list" where
  "mapped_cells page file bytes =
     take (min (page_up page bytes) (page_up page (4 * length file)) div 4)
       (file @ replicate (page div 4) 0)"

definition unload :: "'r JakubeIndex \<Rightarrow> 'r JakubeIndex" where
  "unload st =
     st\<lparr>fd := 0, nodes := None, roots := [], n_items := 0, n_nodes := 0, nodes_size := 0,
        built := False\<rparr>"

text \<open>
  \<open>save\<close>: the outcome (\<open>None\<close> for \<open>true\<close>) and the files afterwards. Opening truncates
  the file; the header, the roots and then \<open>_s * _n_nodes\<close> bytes from \<open>_nodes\<close> follow.
  A source range that does not lie inside the buffer makes that last \<open>write\<close> fail.
\<close>

definition save :: "'r JakubeIndex \<Rightarrow> string \<Rightarrow> os_env \<Rightarrow> error option \<times> os_env" where
  "save st filename os =
     (if \<not> built st then (Some (Failed ''Index not built''), os)
      else if \<not> writable os filename then (Some (Failed ''Unable to open file for writing''), os)
      else
        (let header = [word_of_nat (f_dim st), word_of_int (n_items st), word_of_int (n_nodes st),
                       word_of_int (nodes_size st), word_of_int (K_grp st),
                       word_of_nat (length (roots st))] @ map word_of_int (roots st);
             len = s_cells (f_dim st) * nat (n_nodes st);
             buf = (case nodes st of None \<Rightarrow> [] | Some a \<Rightarrow> cells a)
         in if n_nodes st < 0 \<or> length buf < len
            then (Some (Failed ''Unable to write nodes''),
                  os\<lparr>files := (files os)(filename \<mapsto> header)\<rparr>)
            else (None, os\<lparr>files := (files os)(filename \<mapsto> header @ take len buf)\<rparr>)))"

text \<open>One \<open>read\<close> of a four-byte field at cell \<open>pos\<close> into a variable holding \<open>old\<close>.\<close>

definition read_cell :: "cell list \<Rightarrow> nat \<Rightarrow> cell \<Rightarrow> cell" where
  "read_cell file pos old = (if pos < length file then file ! pos else old)"

text \<open>
  \<open>load\<close>: the outcome (\<open>None\<close> for \<open>true\<close>) and the index afterwards. The locals
  \<open>f_file\<close> and \<open>roots_size\<close> start as whatever the stack holds; a negative
  \<open>roots_size\<close> makes \<open>_roots.resize\<close> throw. The mapping starts at
  offset 0 of the file, as the last argument of \<open>mmap\<close> says, and is asked for
  \<open>_s * _n_nodes\<close> bytes.
\<close>

definition load ::
  "heap_env \<Rightarrow> os_env \<Rightarrow> string \<Rightarrow> 'r JakubeIndex \<Rightarrow> error option \<times> 'r JakubeIndex" where
  "load h os filename st0 =
     (let st = unload st0
      in case files os filename of
           None \<Rightarrow> (Some (Failed ''Unable to open file for reading''), st\<lparr>fd := - 1\<rparr>)
         | Some file \<Rightarrow>
            (let f_file = read_cell file 0 (stack h 0)
             in if sint f_file \<noteq> int (f_dim st)
                then (Some (Failed ''Dimension mismatch''), st\<lparr>fd := 0\<rparr>)
                else
                  (let st1 = st\<lparr>n_items := sint (read_cell file 1 (word_of_int (n_items st))),
                                 n_nodes := sint (read_cell file 2 (word_of_int (n_nodes st))),
                                 nodes_size := sint (read_cell file 3 (word_of_int (nodes_size st))),
                                 K_grp := sint (read_cell file 4 (word_of_int (K_grp st)))\<rparr>;
                       roots_size = sint (read_cell file 5 (stack h 1))
                   in if roots_size < 0 then (Some LengthError, st1\<lparr>fd := new_fd os\<rparr>)
                      else
                        (let st2 = st1\<lparr>roots :=
                                     map (\<lambda>k. sint (read_cell file (6 + k) 0)) [0..<nat roots_size]\<rparr>;
                             bytes = nat ((int (s_bytes (f_dim st)) * n_nodes st2) mod 2 ^ 64)
                         in if \<not> mappable os bytes
                            then (Some (Failed ''Unable to mmap nodes''),
                                  st2\<lparr>fd := 0, nodes := None\<rparr>)
                            else (None, st2\<lparr>fd := new_fd os,
                                            nodes := Some (Mapped (mapped_cells (page_bytes os) file bytes)),
                                            built := True\<rparr>)))))"

section \<open>Well-formed unbuilt indices\<close>

text \<open>
  The invariant of an index that has only seen \<open>add_item\<close>: the buffer holds exactly
  \<open>_nodes_size\<close> nodes, all items lie inside it, and the dimension does not exceed the
  declared length \<open>JAKUBELIB_V_ARRAY_SIZE = 65536\<close> of \<open>Node::v\<close>.
\<close>

definition arena_inv :: "'r JakubeIndex \<Rightarrow> bool" where
  "arena_inv st \<longleftrightarrow>
     \<not> built st \<and> f_dim st \<le> 65536 \<and> 0 \<le> n_items st \<and> n_items st \<le> nodes_size st \<and>
     nodes_size st < 2 ^ 31 \<and>
     (case nodes st of
        None \<Rightarrow> nodes_size st = 0
      | Some (Heap b) \<Rightarrow> length b = s_cells (f_dim st) * nat (nodes_size st)
      | Some (Mapped b) \<Rightarrow> False)"

section \<open>Concrete inputs\<close>

text \<open>An allocator that hands out zeroed memory, up to 4096 bytes.\<close>

definition env0 :: heap_env where
  "env0 = \<lparr>junk = (\<lambda>_. 0), stack = (\<lambda>_. 0), heap_limit = 4096\<rparr>"

text \<open>The index with \<open>f = 1\<close> after \<open>add_item(0, {3})\<close> and \<open>add_item(2, {6})\<close>.\<close>

definition st_two :: "unit JakubeIndex" where
  "st_two = \<lparr>f_dim = 1, n_items = 3, nodes = Some (Heap [1, 0, 0, 3, 0, 0, 0, 0, 1, 0, 0, 6]),
     n_nodes = 0, nodes_size = 3, roots = [], K_grp = 1, random = (), verbose = False,
     built = False, fd = 0\<rparr>"

text \<open>The same index after the further call \<open>add_item(0, {9})\<close>.\<close>

definition st_two_again :: "unit JakubeIndex" where
  "st_two_again = \<lparr>f_dim = 1, n_items = 3,
     nodes = Some (Heap [1, 0, 0, 9, 0, 0, 0, 0, 1, 0, 0, 6]),
     n_nodes = 0, nodes_size = 3, roots = [], K_grp = 1, random = (), verbose = False,
     built = False, fd = 0\<rparr>"

text \<open>The generators under which \<open>index(n)\<close> answers below \<open>n\<close>.\<close>

definition honest :: "'r random_ops \<Rightarrow> bool" where
  "honest ops \<longleftrightarrow> (\<forall>n r. 0 < n \<longrightarrow> fst (rnd_index ops n r) < n)"

text \<open>
  A generator that replays a fixed cycle of raw draws: \<open>index(n)\<close> is the next draw
  modulo \<open>n\<close>, \<open>flip()\<close> its lowest bit, and \<open>set_seed\<close> restarts the cycle with the
  seed as its only draw.
\<close>

definition replay_ops :: "nat list random_ops" where
  "replay_ops =
     \<lparr>rnd_index = (\<lambda>n r. case r of [] \<Rightarrow> (0, []) | x # xs \<Rightarrow> (x mod n, xs @ [x])),
      rnd_flip = (\<lambda>r. case r of [] \<Rightarrow> (False, []) | x # xs \<Rightarrow> (odd x, xs @ [x])),
      rnd_set_seed = (\<lambda>seed r. [unat seed])\<rparr>"

text \<open>The index with \<open>f = 1\<close> after \<open>add_item(0, {1})\<close> and \<open>add_item(1, {2})\<close>.\<close>

definition st_pair :: "nat list JakubeIndex" where
  "st_pair = \<lparr>f_dim = 1, n_items = 2, nodes = Some (Heap [1, 0, 0, 1, 1, 0, 0, 2]),
     n_nodes = 0, nodes_size = 2, roots = [], K_grp = 1, random = [31, 30, 30],
     verbose = False, built = False, fd = 0\<rparr>"

text \<open>The index with \<open>f = 1\<close> after \<open>add_item(0, {3})\<close>.\<close>

definition st_single :: "nat list JakubeIndex" where
  "st_single = \<lparr>f_dim = 1, n_items = 1, nodes = Some (Heap [1, 0, 0, 3]),
     n_nodes = 0, nodes_size = 1, roots = [], K_grp = 1, random = [0],
     verbose = False, built = False, fd = 0\<rparr>"

text \<open>
  The index of the repository's test: \<open>f = 1\<close> and the items \<open>0b0011\<close>, \<open>0b0110\<close>
  and \<open>0b1111\<close> under the ids 0, 1 and 2.
\<close>

definition st_three :: "nat list JakubeIndex" where
  "st_three = \<lparr>f_dim = 1, n_items = 3,
     nodes = Some (Heap [1, 0, 0, 3, 1, 0, 0, 6, 1, 0, 0, 15]),
     n_nodes = 0, nodes_size = 3, roots = [], K_grp = 1, random = [7, 12],
     verbose = False, built = False, fd = 0\<rparr>"

text \<open>An allocator whose fresh memory holds \<open>0xDEADBEEF\<close>.\<close>

definition env1 :: heap_env where
  "env1 = \<lparr>junk = (\<lambda>_. 3735928559), stack = (\<lambda>_. 3735928559), heap_limit = 4096\<rparr>"

text \<open>
  The same three items added after \<open>set_seed(42)\<close>, once under each allocator: the
  children cells of the value nodes are never written.
\<close>

definition st_seed0 :: "nat list JakubeIndex" where
  "st_seed0 = \<lparr>f_dim = 1, n_items = 3,
     nodes = Some (Heap [1, 0, 0, 3, 1, 0, 0, 6, 1, 0, 0, 15]),
     n_nodes = 0, nodes_size = 3, roots = [], K_grp = 1, random = [42],
     verbose = False, built = False, fd = 0\<rparr>"

definition st_seed1 :: "nat list JakubeIndex" where
  "st_seed1 = \<lparr>f_dim = 1, n_items = 3,
     nodes = Some (Heap [1, 3735928559, 3735928559, 3, 1, 3735928559, 3735928559, 6,
                         1, 3735928559, 3735928559, 15]),
     n_nodes = 0, nodes_size = 3, roots = [], K_grp = 1, random = [42],
     verbose = False, built = False, fd = 0\<rparr>"

text \<open>
  A built index with \<open>f = 1\<close> (so \<open>K = 1\<close>) over the items \<open>0b0011\<close>, \<open>0b0110\<close> and
  \<open>0b1111\<close>: node 3 splits the items 1 and 2 on bit 28 (mask 8), the root, node 4, splits
  item 0 from node 3 on bit 29 (mask 4).
\<close>

definition st_forest :: "unit JakubeIndex" where
  "st_forest = \<lparr>f_dim = 1, n_items = 3,
     nodes = Some (Heap [1, 0, 0, 3,  1, 0, 0, 6,  1, 0, 0, 15,  2, 1, 2, 28,  3, 0, 3, 29]),
     n_nodes = 5, nodes_size = 5, roots = [4], K_grp = 1, random = (), verbose = False,
     built = True, fd = 0\<rparr>"

text \<open>
  A file system holding the 48-byte file \<open>a.idx\<close>. Read through \<open>load\<close> with \<open>f = 1\<close> it
  gives two items, \<open>{3}\<close> and \<open>{9}\<close>, and the root node 2 splitting them on bit 28.
  Every path can be written, mappings of 1 to \<open>2\<^sup>2\<^sup>0\<close> bytes are granted, a page is
  4096 bytes.
\<close>

definition os_a :: os_env where
  "os_a = \<lparr>files = (\<lambda>p. if p = ''a.idx'' then Some [1, 2, 3, 3,  1, 1, 2, 9,  2, 0, 1, 28]
                          else None),
           writable = (\<lambda>p. True), mappable = (\<lambda>n. 0 < n \<and> n \<le> 2 ^ 20),
           page_bytes = 4096, new_fd = 3\<rparr>"

text \<open>The index that \<open>load("a.idx")\<close> leaves, the files after it is saved as \<open>b.idx\<close>, and
  the index that a fresh \<open>load("b.idx")\<close> leaves.\<close>

definition st_a :: "unit JakubeIndex" where
  "st_a = snd (load env0 os_a ''a.idx'' (JakubeIndex 1 ()))"

definition os_b :: os_env where
  "os_b = snd (save st_a ''b.idx'' os_a)"

definition st_b :: "unit JakubeIndex" where
  "st_b = snd (load env0 os_b ''b.idx'' (JakubeIndex 1 ()))"


text \<open>
  A file system whose file \<open>z.idx\<close> holds a header only: \<open>f = 1\<close>, \<open>n_items = 100\<close>,
  no nodes and no roots. \<open>load\<close> asks for a mapping of 0 bytes, which is not granted;
  \<open>st_z\<close> is the index a fresh \<open>load("z.idx")\<close> leaves, \<open>st_z1\<close> that index after
  \<open>add_item(0, {5})\<close>.
\<close>

definition os_z :: os_env where
  "os_z = \<lparr>files = (\<lambda>p. if p = ''z.idx'' then Some [1, 100, 0, 0, 1, 0] else None),
           writable = (\<lambda>p. True), mappable = (\<lambda>n. 0 < n \<and> n \<le> 2 ^ 20),
           page_bytes = 4096, new_fd = 3\<rparr>"

definition st_z :: "unit JakubeIndex" where
  "st_z = \<lparr>f_dim = 1, n_items = 100, nodes = None, n_nodes = 0, nodes_size = 0, roots = [],
     K_grp = 1, random = (), verbose = False, built = False, fd = 0\<rparr>"

definition st_z1 :: "unit JakubeIndex" where
  "st_z1 = \<lparr>f_dim = 1, n_items = 100, nodes = Some (Heap [1, 0, 0, 5]), n_nodes = 0,
     nodes_size = 1, roots = [], K_grp = 1, random = (), verbose = False, built = False,
     fd = 0\<rparr>"

text \<open>The index with \<open>f = 1\<close> after \<open>add_item(0, {0xFFFFFFFF})\<close> and \<open>add_item(1, {0})\<close>.\<close>

definition st_ones :: "unit JakubeIndex" where
  "st_ones = \<lparr>f_dim = 1, n_items = 2, nodes = Some (Heap [1, 0, 0, 4294967295, 1, 0, 0, 0]),
     n_nodes = 0, nodes_size = 2, roots = [], K_grp = 1, random = (), verbose = False,
     built = False, fd = 0\<rparr>"

section \<open>Well-formed forests\<close>

text \<open>
  What \<open>_get_all_nns\<close> relies on in the arena of a built index. A node that the traversal
  takes for a group node lists item ids; any other node that is not an item has its split
  bit below \<open>f * 32\<close> and two children with smaller ids than its own (\<open>_make_tree\<close>
  appends a node after its subtrees). The roots are nodes, and the items can be read.
\<close>

definition node_ok :: "'r JakubeIndex \<Rightarrow> int \<Rightarrow> bool" where
  "node_ok st i =
     (case node_n_descendants st i of
        Inl e \<Rightarrow> False
      | Inr nd \<Rightarrow>
          if nd = 1 \<and> i < n_items st then True
          else if nd \<le> K_grp st then
            (case node_children st i nd of
               Inl e \<Rightarrow> False
             | Inr dst \<Rightarrow> list_all (\<lambda>c. 0 \<le> c \<and> c < n_items st) dst)
          else
            (case cell_at (nodes st) (node_base st i + 3) of
               Inl e \<Rightarrow> False
             | Inr v0 \<Rightarrow>
                (case node_child st i 0 of
                   Inl e \<Rightarrow> False
                 | Inr c0 \<Rightarrow>
                    (case node_child st i 1 of
                       Inl e \<Rightarrow> False
                     | Inr c1 \<Rightarrow>
                         0 \<le> sint v0 \<and> sint v0 < int (f_dim st * 32) \<and>
                         0 \<le> c0 \<and> c0 < i \<and> 0 \<le> c1 \<and> c1 < i))))"

definition forest_ok :: "'r JakubeIndex \<Rightarrow> bool" where
  "forest_ok st \<longleftrightarrow>
     n_items st \<le> n_nodes st \<and>
     list_all (\<lambda>r. 0 \<le> r \<and> r < n_nodes st) (roots st) \<and>
     list_all (node_ok st) (map int [0..<nat (n_nodes st)]) \<and>
     list_all (\<lambda>i. \<exists>y. node_v st i = Inr y) (map int [0..<nat (n_items st)])"

text \<open>The measure under which the traversal loop ends: the queue's entries by node id.\<close>

definition weight :: "(int \<times> int) list \<Rightarrow> nat" where
  "weight q = sum_list (map (\<lambda>e. 3 ^ nat (snd e)) q)"

declare random_tries.simps [simp del] brute_force.simps [simp del] split_loop.simps [simp del]
  fallback_loop.simps [simp del]

declare gather.simps [simp del]

section \<open>The arena under writes and growth\<close>



lemma length_patch: "i + length ws \<le> length b \<Longrightarrow> length (patch b i ws) = length b"
  by (simp add: patch_def)

lemma nth_patch:
  "i + length ws \<le> length b \<Longrightarrow> m < length b \<Longrightarrow>
   patch b i ws ! m = (if i \<le> m \<and> m < i + length ws then ws ! (m - i) else b ! m)"
  by (auto simp: patch_def nth_append)

lemma block_patch_same:
  "i + length ws \<le> length b \<Longrightarrow> take (length ws) (drop i (patch b i ws)) = ws"
  by (simp add: patch_def)

lemma block_patch_other:
  assumes "i + length ws \<le> length b" and "k + n \<le> i \<or> i + length ws \<le> k"
  shows "take n (drop k (patch b i ws)) = take n (drop k b)"
proof (rule nth_equalityI)
  show "length (take n (drop k (patch b i ws))) = length (take n (drop k b))"
    using assms(1) by (simp add: length_patch)
next
  fix j assume "j < length (take n (drop k (patch b i ws)))"
  then have j: "j < n" "k + j < length b" using assms(1) by (auto simp: length_patch)
  have "patch b i ws ! (k + j) = b ! (k + j)"
    using assms j by (subst nth_patch) auto
  then show "take n (drop k (patch b i ws)) ! j = take n (drop k b) ! j"
    using j assms(1) by (simp add: length_patch)
qed

lemma block_at_poke_same:
  "poke_block a i ws = Inr a' \<Longrightarrow> block_at a' i (length ws) = Inr ws"
  by (auto simp: poke_block_def block_at_def length_patch block_patch_same
      split: option.splits arena.splits if_splits)

lemma block_at_poke_other:
  assumes "poke_block a i ws = Inr a'" and "k + int n \<le> i \<or> i + int (length ws) \<le> k"
  shows "block_at a' k n = block_at a k n"
proof -
  from assms(1) obtain b where a: "a = Some (Heap b)" and i: "0 \<le> i" "nat i + length ws \<le> length b"
    and a': "a' = Some (Heap (patch b (nat i) ws))"
    by (auto simp: poke_block_def split: option.splits arena.splits if_splits)
  have len: "length (patch b (nat i) ws) = length b" using i by (simp add: length_patch)
  show ?thesis
  proof (cases "0 \<le> k \<and> nat k + n \<le> length b")
    case False
    then show ?thesis using a a' len by (auto simp: block_at_def)
  next
    case True
    have "nat k + n \<le> nat i \<or> nat i + length ws \<le> nat k"
      using assms(2) True i by linarith
    then have "take n (drop (nat k) (patch b (nat i) ws)) = take n (drop (nat k) b)"
      using i by (intro block_patch_other) auto
    then show ?thesis using a a' len True by (simp add: block_at_def)
  qed
qed

lemma s_cells_eq: "s_cells f = 3 + f"
  by (simp add: s_cells_def s_bytes_def)

lemma s_bytes_eq: "s_bytes f = 4 * s_cells f"
  by (simp add: s_cells_def s_bytes_def)

lemma length_realloc: "length (cells (realloc h a n)) = n"
  by (cases a) (auto simp: realloc_def)

lemma realloc_is_Heap: "\<exists>b. realloc h a n = Heap b"
  by (cases a) (auto simp: realloc_def)

lemma bytes_no_wrap:
  assumes "f \<le> 65536" "0 \<le> n" "n < 2 ^ 31"
  shows "nat ((int (s_bytes f) * n) mod 2 ^ 64) div 4 = s_cells f * nat n"
proof -
  have "int (s_bytes f) \<le> 262156" using assms(1) by (simp add: s_bytes_def)
  then have "int (s_bytes f) * n \<le> 262156 * n"
    using assms(2) by (simp add: mult_right_mono)
  also have "\<dots> < 2 ^ 64" using assms(3) by simp
  finally have lt: "int (s_bytes f) * n < 2 ^ 64" .
  have "0 \<le> int (s_bytes f) * n" using assms(2) by simp
  then have "(int (s_bytes f) * n) mod 2 ^ 64 = int (s_bytes f) * n"
    using lt by simp
  then have "nat ((int (s_bytes f) * n) mod 2 ^ 64) = s_bytes f * nat n"
    by (simp add: nat_mult_distrib)
  then show ?thesis by (simp add: s_bytes_eq)
qed

lemma allocate_size_inv:
  assumes "arena_inv st" and "allocate_size h n st = Inr st'"
  shows "arena_inv st'" and "n \<le> nodes_size st'" and "n_items st' = n_items st"
    and "f_dim st' = f_dim st" and "built st' = built st"
    and "n \<le> nodes_size st \<Longrightarrow> st' = st"
proof -
  show "n \<le> nodes_size st \<Longrightarrow> st' = st"
    using assms(2) by (simp add: allocate_size_def)
  show "arena_inv st'" "n \<le> nodes_size st'" "n_items st' = n_items st"
    "f_dim st' = f_dim st" "built st' = built st"
  proof -
    show "arena_inv st'"
    proof (cases "n > nodes_size st")
      case False
      then show ?thesis using assms by (simp add: allocate_size_def)
    next
      case True
      define nn where "nn = max n (grow13 (nodes_size st + 1))"
      from assms(2) True have nn: "nn \<le> 2 ^ 31 - 1"
        and st': "st' = st\<lparr>nodes := Some (realloc h (nodes st)
                   (nat ((int (s_bytes (f_dim st)) * nn) mod 2 ^ 64) div 4)), nodes_size := nn\<rparr>"
        by (auto simp: allocate_size_def Let_def nn_def split: if_splits)
      have n0: "0 \<le> nn" "nodes_size st \<le> nn" "n \<le> nn"
        using True assms(1) by (auto simp: nn_def arena_inv_def)
      have f: "f_dim st \<le> 65536" using assms(1) by (simp add: arena_inv_def)
      have eq: "nat ((int (s_bytes (f_dim st)) * nn) mod 2 ^ 64) div 4 = s_cells (f_dim st) * nat nn"
        using bytes_no_wrap [OF f n0(1)] nn by simp
      obtain b where b: "realloc h (nodes st) (s_cells (f_dim st) * nat nn) = Heap b"
        using realloc_is_Heap by blast
      have "length b = s_cells (f_dim st) * nat nn"
        using length_realloc [of h "nodes st" "s_cells (f_dim st) * nat nn"] b by simp
      then show ?thesis
        using assms(1) nn n0 eq b by (simp add: st' arena_inv_def)
    qed
    show "n \<le> nodes_size st'" "n_items st' = n_items st"
      "f_dim st' = f_dim st" "built st' = built st"
      using assms(2) by (auto simp: allocate_size_def Let_def split: if_splits)
  qed
qed



lemma poke_block_Inr:
  assumes "poke_block a k ws = Inr a'"
  obtains b where "a = Some (Heap b)" "a' = Some (Heap (patch b (nat k) ws))"
    "0 \<le> k" "nat k + length ws \<le> length b"
  using assms by (auto simp: poke_block_def split: option.splits arena.splits if_splits)

lemma add_item_Inr:
  assumes "add_item h i w st = Inr st'"
  obtains st1 a1 a2 where "\<not> built st" "i < 2 ^ 31 - 1" "f_dim st \<le> length w"
    "allocate_size h (i + 1) st = Inr st1"
    "poke_block (nodes st1) (node_base st1 i) [1] = Inr a1"
    "poke_block a1 (node_base st1 i + 3) (take (f_dim st) w) = Inr a2"
    "st' = st1\<lparr>nodes := a2, n_items := (if i \<ge> n_items st1 then i + 1 else n_items st1)\<rparr>"
  using assms by (auto simp: add_item_def split: if_splits sum.splits)

lemma add_item_inv:
  assumes "arena_inv st" and "add_item h i w st = Inr st'"
  shows "arena_inv st'" and "0 \<le> i" and "n_items st' = max (n_items st) (i + 1)"
    and "f_dim st' = f_dim st"
proof -
  from assms(2) obtain st1 a1 a2 where
    alloc: "allocate_size h (i + 1) st = Inr st1"
    and p1: "poke_block (nodes st1) (node_base st1 i) [1] = Inr a1"
    and p2: "poke_block a1 (node_base st1 i + 3) (take (f_dim st) w) = Inr a2"
    and st': "st' = st1\<lparr>nodes := a2, n_items := (if i \<ge> n_items st1 then i + 1 else n_items st1)\<rparr>"
    by (rule add_item_Inr)
  note a = allocate_size_inv [OF assms(1) alloc]
  from p1 obtain b where b: "nodes st1 = Some (Heap b)" "a1 = Some (Heap (patch b (nat (node_base st1 i)) [1]))"
    "0 \<le> node_base st1 i" "nat (node_base st1 i) + length [1::cell] \<le> length b"
    by (rule poke_block_Inr)
  from p2 obtain b1 where b1: "a1 = Some (Heap b1)"
    "a2 = Some (Heap (patch b1 (nat (node_base st1 i + 3)) (take (f_dim st) w)))"
    "nat (node_base st1 i + 3) + length (take (f_dim st) w) \<le> length b1"
    by (rule poke_block_Inr)
  have len1: "length b1 = length b" using b b1 by (simp add: length_patch)
  have len2: "length (patch b1 (nat (node_base st1 i + 3)) (take (f_dim st) w)) = length b"
    using b1(3) len1 by (simp add: length_patch)
  show i0: "0 \<le> i"
  proof (rule ccontr)
    assume "\<not> 0 \<le> i"
    then have "int (s_cells (f_dim st1)) * i < 0"
      by (simp add: s_cells_eq mult_pos_neg)
    then show False using b(3) by (simp add: node_base_def)
  qed
  show "n_items st' = max (n_items st) (i + 1)"
    using a(3) by (auto simp: st')
  show "f_dim st' = f_dim st" using a(4) by (simp add: st')
  show "arena_inv st'"
    using a(1) a(2) b(1) b1(2) len2 i0 by (auto simp: st' arena_inv_def)
qed

lemma add_items_inv:
  "arena_inv st \<Longrightarrow> add_items h items st = Inr st' \<Longrightarrow>
   arena_inv st' \<and> f_dim st' = f_dim st \<and> (\<forall>p \<in> set items. 0 \<le> fst p) \<and>
   n_items st' = Max (insert (n_items st) ((\<lambda>p. fst p + 1) ` set items))"
proof (induction items arbitrary: st)
  case Nil
  then show ?case by simp
next
  case (Cons p items)
  obtain i w where p: "p = (i, w)" by (cases p)
  from Cons.prems(2) obtain st1 where s1: "add_item h i w st = Inr st1"
    and s2: "add_items h items st1 = Inr st'"
    by (auto simp: p split: sum.splits)
  note a = add_item_inv [OF Cons.prems(1) s1]
  note ih = Cons.IH [OF a(1) s2]
  have "Max (insert (n_items st1) ((\<lambda>p. fst p + 1) ` set items))
        = Max (insert (n_items st) ((\<lambda>p. fst p + 1) ` set (p # items)))"
  proof -
    have fin: "finite ((\<lambda>p. fst p + 1) ` set items)" by simp
    show ?thesis
    proof (cases "items = []")
      case True
      then show ?thesis by (simp add: a(3) p max.commute)
    next
      case False
      then have ne: "(\<lambda>p. fst p + 1) ` set items \<noteq> {}" by simp
      show ?thesis
        using fin ne by (simp add: a(3) p Max_insert max.assoc max.commute max.left_commute)
    qed
  qed
  then show ?case using ih a by (simp add: p)
qed

section \<open>The split loops of \<open>_make_tree\<close>\<close>

lemma split_imbalance_ge_1: "1 \<le> split_imbalance l r"
proof (cases "length l = 0 \<or> length r = 0")
  case True
  then show ?thesis by (auto simp: split_imbalance_def)
next
  case False
  define a :: rat where "a = of_nat (length l)"
  define b :: rat where "b = of_nat (length r)"
  have pos: "0 < a" "0 < b" using False by (simp_all add: a_def b_def)
  have "1 \<le> a / b \<or> 1 \<le> b / a"
  proof (cases "b \<le> a")
    case True
    then show ?thesis using pos by simp
  next
    case False
    then have "a \<le> b" by simp
    then show ?thesis using pos by simp
  qed
  then have "1 \<le> max (a / b) (b / a)" by (auto simp: le_max_iff_disj)
  then show ?thesis using False by (simp add: split_imbalance_def Let_def a_def b_def)
qed

lemma fallback_loop_None: "fallback_loop fuel ops indices c r = None"
proof (induction fuel arbitrary: c r)
  case 0
  have "99 / 100 < split_imbalance (fst c) (snd c)"
    using split_imbalance_ge_1 [of "fst c" "snd c"] by simp
  then show ?case by (simp add: fallback_loop.simps)
next
  case (Suc fuel)
  have "99 / 100 < split_imbalance (fst c) (snd c)"
    using split_imbalance_ge_1 [of "fst c" "snd c"] by simp
  then show ?case using Suc by (simp add: fallback_loop.simps split: prod.splits)
qed

lemma sint_of_nat_small: "x < 2 ^ 31 \<Longrightarrow> sint (word_of_nat x :: cell) = int x"
  by (simp add: signed_of_nat signed_take_bit_int_eq_self)

lemma margin_in_range:
  assumes "x < length y * 32" and "length y \<le> 65536"
  shows "\<exists>b. margin (word_of_nat x) y = Inr b"
proof -
  have x: "x < 2 ^ 31" using assms by simp
  have "sint (word_of_nat x :: cell) = int x"
    using x by (rule sint_of_nat_small)
  then have "size_t_of_int (sint (word_of_nat x :: cell)) = x"
    using x by (simp add: size_t_of_int_def)
  moreover have "x div 32 < length y" using assms(1) by (simp add: less_mult_imp_div_less)
  ultimately show ?thesis by (simp add: margin_def Let_def)
qed


lemma count_right_in_range:
  assumes "\<forall>y \<in> set ys. length y = f" and "x < f * 32" and "f \<le> 65536"
  shows "\<exists>n. count_right (word_of_nat x) ys k = Inr n"
  using assms(1)
proof (induction ys arbitrary: k)
  case Nil
  then show ?case by simp
next
  case (Cons y ys)
  then have "length y = f" by simp
  then obtain b where "margin (word_of_nat x) y = Inr b"
    using margin_in_range [of x y] assms(2,3) by auto
  then show ?case using Cons by simp
qed


lemma random_tries_in_range:
  assumes "honest ops" and "\<forall>y \<in> set ys. length y = f" and "f \<le> 65536"
    and "0 < dm" and "dm \<le> f * 32"
  shows "\<exists>res. random_tries ops ys dm i v0 r = Inr res"
proof (induction "20 - i" arbitrary: i v0 r)
  case 0
  then show ?case by (subst random_tries.simps) simp
next
  case (Suc n)
  then have i: "i < 20" and n: "n = 20 - Suc i" by simp_all
  obtain x r' where xr: "rnd_index ops dm r = (x, r')"
    by (cases "rnd_index ops dm r")
  have "fst (rnd_index ops dm r) < dm"
    using assms(1,4) by (simp add: honest_def)
  then have x: "x < f * 32" using assms(5) by (simp add: xr)
  obtain k where k: "count_right (word_of_nat x) ys 0 = Inr k"
    using count_right_in_range [OF assms(2) x assms(3)] by blast
  obtain i2 v2 r2 where "random_tries ops ys dm (Suc i) (word_of_nat x) r' = Inr (i2, v2, r2)"
    using Suc.hyps(1) [OF n] by (metis prod_cases3)
  then show ?case
    using i by (subst random_tries.simps) (auto simp: xr k)
qed

lemma brute_force_in_range:
  assumes "\<forall>y \<in> set ys. length y = f" and "f \<le> 65536" and "dm \<le> f * 32"
  shows "\<exists>v. brute_force ys dm j v0 = Inr v"
proof (induction "dm - j" arbitrary: j v0)
  case 0
  then show ?case by (subst brute_force.simps) simp
next
  case (Suc n)
  then have j: "j < dm" and n: "n = dm - Suc j" by simp_all
  have "j < f * 32" using j assms(3) by simp
  then obtain k where k: "count_right (word_of_nat j) ys 0 = Inr k"
    using count_right_in_range [OF assms(1) _ assms(2)] by blast
  obtain v where "brute_force ys dm (Suc j) (word_of_nat j) = Inr v"
    using Suc.hyps(1) [OF n] by blast
  then show ?case
    using j by (subst brute_force.simps) (auto simp: k)
qed

text \<open>The bit that \<open>create_split\<close> leaves in \<open>v[0]\<close> is below \<open>dim\<close>.\<close>

lemma random_tries_bit:
  assumes "honest ops" and "0 < dm" and "random_tries ops ys dm i v0 r = Inr (i', v, r')"
    and "i < 20"
  shows "\<exists>x < dm. v = word_of_nat x"
  using assms(3,4)
proof (induction "20 - i" arbitrary: i v0 r)
  case 0
  then show ?case by simp
next
  case (Suc n)
  obtain x r1 where xr: "rnd_index ops dm r = (x, r1)"
    by (cases "rnd_index ops dm r")
  have "fst (rnd_index ops dm r) < dm"
    using assms(1,2) by (simp add: honest_def)
  then have x: "x < dm" by (simp add: xr)
  from Suc.prems(1) obtain k where k: "count_right (word_of_nat x) ys 0 = Inr k"
    using Suc.prems(2) by (subst (asm) random_tries.simps) (auto simp: xr split: sum.splits)
  show ?case
  proof (cases "k > 0 \<and> k < length ys")
    case True
    then have "v = word_of_nat x"
      using Suc.prems by (subst (asm) random_tries.simps) (simp add: xr k)
    then show ?thesis using x by blast
  next
    case False
    then have next_call: "random_tries ops ys dm (Suc i) (word_of_nat x) r1 = Inr (i', v, r')"
      using Suc.prems by (subst (asm) random_tries.simps) (auto simp: xr k)
    show ?thesis
    proof (cases "Suc i < 20")
      case True
      have "n = 20 - Suc i" using Suc.hyps(2) by simp
      then show ?thesis using Suc.hyps(1) next_call True by blast
    next
      case False
      then have "v = word_of_nat x"
        using next_call by (subst (asm) random_tries.simps) simp
      then show ?thesis using x by blast
    qed
  qed
qed

lemma brute_force_bit:
  assumes "brute_force ys dm j v0 = Inr v" and "\<exists>x < dm. v0 = word_of_nat x"
  shows "\<exists>x < dm. v = word_of_nat x"
  using assms
proof (induction "dm - j" arbitrary: j v0)
  case 0
  then show ?case by (subst (asm) brute_force.simps) simp
next
  case (Suc n)
  then have j: "j < dm" and n: "n = dm - Suc j" by simp_all
  from Suc.prems(1) obtain k where k: "count_right (word_of_nat j) ys 0 = Inr k"
    using j by (subst (asm) brute_force.simps) (auto split: sum.splits)
  show ?case
  proof (cases "k > 0 \<and> k < length ys")
    case True
    then have "v = word_of_nat j"
      using Suc.prems(1) j by (subst (asm) brute_force.simps) (simp add: k)
    then show ?thesis using j by blast
  next
    case False
    then have "brute_force ys dm (Suc j) (word_of_nat j) = Inr v"
      using Suc.prems(1) j by (subst (asm) brute_force.simps) (auto simp: k)
    then show ?thesis using Suc.hyps(1) [OF n] j by blast
  qed
qed

lemma create_split_in_range:
  assumes "honest ops" and "\<forall>y \<in> set ys. length y = f" and "0 < f" and "f \<le> 65536"
  shows "\<exists>x r'. x < f * 32 \<and> create_split ops ys f v0 r = Inr (word_of_nat x, r')"
proof -
  define dm where "dm = f * 8 * 4"
  have dm: "0 < dm" "dm \<le> f * 32" using assms(3) by (simp_all add: dm_def)
  obtain i v r' where rt: "random_tries ops ys dm 0 v0 r = Inr (i, v, r')"
    using random_tries_in_range [OF assms(1,2,4) dm] by (metis prod_cases3)
  obtain x where x: "x < dm" "v = word_of_nat x"
    using random_tries_bit [OF assms(1) dm(1) rt] by auto
  have cs: "create_split ops ys f v0 r =
      (if i = 20 then map_sum id (\<lambda>v. (v, r')) (brute_force ys dm 0 v) else Inr (v, r'))"
    unfolding create_split_def Let_def dm_def [symmetric] by (simp add: rt)
  show ?thesis
  proof (cases "i = 20")
    case False
    have "x < f * 32" using x dm by simp
    then show ?thesis using False x by (intro exI [of _ x] exI [of _ r']) (simp add: cs)
  next
    case True
    obtain v' where bf: "brute_force ys dm 0 v = Inr v'"
      using brute_force_in_range [OF assms(2,4) dm(2)] by blast
    obtain x' where x': "x' < dm" "v' = word_of_nat x'"
      using brute_force_bit [OF bf] x by blast
    have "x' < f * 32" using x' dm by simp
    then show ?thesis using bf True x' by (intro exI [of _ x'] exI [of _ r']) (simp add: cs)
  qed
qed

lemma node_v_in_arena:
  assumes "arena_inv st" and "0 \<le> j" and "j < n_items st"
  shows "\<exists>y. node_v st j = Inr y \<and> length y = f_dim st"
proof -
  let ?s = "int (s_cells (f_dim st))"
  have ns: "0 < nodes_size st" "j + 1 \<le> nodes_size st"
    using assms by (simp_all add: arena_inv_def)
  then obtain b where b: "nodes st = Some (Heap b)"
    and len: "length b = s_cells (f_dim st) * nat (nodes_size st)"
    using assms(1) by (auto simp: arena_inv_def split: option.splits arena.splits)
  have "?s * (j + 1) \<le> ?s * nodes_size st"
    using ns by (intro mult_left_mono) auto
  moreover have "?s * (j + 1) = ?s * j + 3 + int (f_dim st)"
    by (simp add: s_cells_eq algebra_simps)
  moreover have "int (length b) = ?s * nodes_size st"
    using len ns by simp
  moreover have "0 \<le> ?s * j" using assms(2) by simp
  ultimately have "nat (?s * j + 3) + f_dim st \<le> length b" by linarith
  moreover have "0 \<le> ?s * j + 3" using assms(2) by simp
  ultimately show ?thesis
    using assms(2) b by (simp add: node_v_def block_at_def node_base_def)
qed

lemma node_vs_in_arena:
  assumes "arena_inv st" and "\<forall>j \<in> set indices. 0 \<le> j \<and> j < n_items st"
  shows "\<exists>ys. node_vs st indices = Inr ys \<and> (\<forall>y \<in> set ys. length y = f_dim st)"
  using assms(2)
proof (induction indices)
  case Nil
  then show ?case by simp
next
  case (Cons j js)
  then obtain y where "node_v st j = Inr y" "length y = f_dim st"
    using node_v_in_arena [OF assms(1), of j] by auto
  moreover obtain ys where "node_vs st js = Inr ys" "\<forall>y \<in> set ys. length y = f_dim st"
    using Cons by auto
  ultimately show ?case by simp
qed

lemma partition_by_side_in_range:
  assumes "arena_inv st" and "\<forall>j \<in> set indices. 0 \<le> j \<and> j < n_items st"
    and "x < f_dim st * 32" and "f_dim st \<le> 65536"
  shows "\<exists>c'. partition_by_side st (word_of_nat x) indices c = Inr c'"
  using assms(2)
proof (induction indices arbitrary: c)
  case Nil
  then show ?case by simp
next
  case (Cons j js)
  obtain c0 c1 where c: "c = (c0, c1)" by (cases c)
  obtain y where y: "node_v st j = Inr y" "length y = f_dim st"
    using node_v_in_arena [OF assms(1), of j] Cons.prems by auto
  obtain b where b: "margin (word_of_nat x) y = Inr b"
    using margin_in_range [of x y] y assms(3,4) by auto
  show ?case using Cons y b by (simp add: c)
qed

lemma split_attempt_in_range:
  assumes "honest ops" and "arena_inv st" and "0 < f_dim st"
    and "\<forall>j \<in> set indices. 0 \<le> j \<and> j < n_items st"
    and "\<forall>y \<in> set ys. length y = f_dim st"
  shows "\<exists>c' v0' r'. split_attempt ops st indices ys v0 r = Inr (c', v0', r')"
proof -
  have f: "f_dim st \<le> 65536" using assms(2) by (simp add: arena_inv_def)
  obtain x r' where x: "x < f_dim st * 32"
    and cs: "create_split ops ys (f_dim st) v0 r = Inr (word_of_nat x, r')"
    using create_split_in_range [OF assms(1,5,3) f] by blast
  obtain c' where "partition_by_side st (word_of_nat x) indices ([], []) = Inr c'"
    using partition_by_side_in_range [OF assms(2,4) x f] by blast
  then show ?thesis by (simp add: split_attempt_def cs)
qed

lemma no_break: "\<not> split_imbalance l r < 95 / 100"
  using split_imbalance_ge_1 [of l r] by simp

lemma split_loop_three_attempts:
  "split_loop ops st indices ys 0 c v0 r =
     (case split_attempt ops st indices ys v0 r of
        Inl e \<Rightarrow> Inl e
      | Inr (c1, v1, r1) \<Rightarrow>
         (case split_attempt ops st indices ys v1 r1 of
            Inl e \<Rightarrow> Inl e
          | Inr (c2, v2, r2) \<Rightarrow>
             (case split_attempt ops st indices ys v2 r2 of
                Inl e \<Rightarrow> Inl e
              | Inr (c3, v3, r3) \<Rightarrow> Inr (c3, v3, r3, 3))))"
  using no_break by (simp add: split_loop.simps split: sum.splits prod.splits)

lemma split_loop_in_range:
  assumes "honest ops" and "arena_inv st" and "0 < f_dim st"
    and "\<forall>j \<in> set indices. 0 \<le> j \<and> j < n_items st"
    and "\<forall>y \<in> set ys. length y = f_dim st"
  shows "\<exists>c' v0' r'. split_loop ops st indices ys 0 c v0 r = Inr (c', v0', r', 3)"
proof -
  note sa = split_attempt_in_range [OF assms]
  obtain c1 v1 r1 where 1: "split_attempt ops st indices ys v0 r = Inr (c1, v1, r1)"
    using sa by blast
  obtain c2 v2 r2 where 2: "split_attempt ops st indices ys v1 r1 = Inr (c2, v2, r2)"
    using sa by blast
  obtain c3 v3 r3 where 3: "split_attempt ops st indices ys v2 r2 = Inr (c3, v3, r3)"
    using sa by blast
  show ?thesis by (simp add: split_loop_three_attempts 1 2 3)
qed

lemma make_tree_root_None:
  assumes "honest ops" and "arena_inv st" and "0 < f_dim st"
    and "\<forall>j \<in> set indices. 0 \<le> j \<and> j < n_items st"
  shows "make_tree fuel ops h indices True st = None"
proof (cases fuel)
  case 0
  then show ?thesis by simp
next
  case (Suc n)
  obtain ys where ys: "node_vs st indices = Inr ys" "\<forall>y \<in> set ys. length y = f_dim st"
    using node_vs_in_arena [OF assms(2,4)] by blast
  obtain c' v0' r' where
    "split_loop ops st indices ys 0 ([], []) (stack h 3) (random st) = Inr (c', v0', r', 3)"
    using split_loop_in_range [OF assms ys(2)] by blast
  then show ?thesis by (simp add: Suc ys fallback_loop_None)
qed

lemma build_None:
  assumes "honest ops" and "arena_inv st" and "0 < f_dim st" and "0 < n_items st" and "1 \<le> q"
  shows "build fuel ops h q st = None"
proof -
  let ?st = "st\<lparr>n_nodes := n_items st\<rparr>"
  have inv: "arena_inv ?st"
    using assms(2) by (auto simp: arena_inv_def split: option.splits arena.splits)
  have idx: "\<forall>j \<in> set (map int [0..<nat (n_items ?st)]). 0 \<le> j \<and> j < n_items ?st"
    by auto
  have "make_tree fuel ops h (map int [0..<nat (n_items ?st)]) True ?st = None"
    using make_tree_root_None [OF assms(1) inv _ idx] assms(3) by simp
  moreover obtain n where "nat q = Suc n" using assms(5) by (cases "nat q") auto
  ultimately have "build_trees fuel ops h (nat q) ?st = None" by simp
  then show ?thesis using assms(2,4) by (simp add: build_def arena_inv_def)
qed

section \<open>Adding items\<close>

lemma node_v_offsets:
  fixes i j :: int
  assumes "j \<noteq> i"
  shows "int (3 + f) * j + 3 + int f \<le> int (3 + f) * i \<or> int (3 + f) * i + 3 + int f \<le> int (3 + f) * j + 3"
proof (cases "j < i")
  case True
  then have "int (3 + f) * (j + 1) \<le> int (3 + f) * i"
    by (intro mult_left_mono) auto
  then show ?thesis by (simp add: algebra_simps)
next
  case False
  then have "int (3 + f) * (i + 1) \<le> int (3 + f) * j"
    using assms by (intro mult_left_mono) auto
  then show ?thesis by (simp add: algebra_simps)
qed

lemma allocate_size_facts:
  assumes "allocate_size h n st = Inr st'"
  shows "n \<le> nodes_size st'" and "nodes_size st \<le> nodes_size st'"
    and "n_items st' = n_items st" and "f_dim st' = f_dim st"
    and "n \<le> nodes_size st \<Longrightarrow> st' = st"
  using assms by (auto simp: allocate_size_def Let_def split: if_splits)

lemma add_item_facts:
  assumes "add_item h i w st = Inr st'"
  shows "0 \<le> i" and "n_items st' = max (n_items st) (i + 1)" and "i + 1 \<le> nodes_size st'"
    and "nodes_size st \<le> nodes_size st'" and "f_dim st' = f_dim st"
proof -
  from assms obtain st1 a1 a2 where
    alloc: "allocate_size h (i + 1) st = Inr st1"
    and p1: "poke_block (nodes st1) (node_base st1 i) [1] = Inr a1"
    and st': "st' = st1\<lparr>nodes := a2, n_items := (if i \<ge> n_items st1 then i + 1 else n_items st1)\<rparr>"
    by (rule add_item_Inr)
  note a = allocate_size_facts [OF alloc]
  from p1 have b: "0 \<le> node_base st1 i" by (rule poke_block_Inr)
  show "0 \<le> i"
  proof (rule ccontr)
    assume "\<not> 0 \<le> i"
    then have "int (s_cells (f_dim st1)) * i < 0"
      by (simp add: s_cells_eq mult_pos_neg)
    then show False using b by (simp add: node_base_def)
  qed
  show "n_items st' = max (n_items st) (i + 1)" using a(3) by (auto simp: st')
  show "i + 1 \<le> nodes_size st'" using a(1) by (simp add: st')
  show "nodes_size st \<le> nodes_size st'" using a(2) by (simp add: st')
  show "f_dim st' = f_dim st" using a(4) by (simp add: st')
qed

lemma add_items_facts:
  "add_items h items st = Inr st' \<Longrightarrow>
   f_dim st' = f_dim st \<and> nodes_size st \<le> nodes_size st' \<and>
   (\<forall>p \<in> set items. 0 \<le> fst p \<and> fst p + 1 \<le> nodes_size st') \<and>
   n_items st' = Max (insert (n_items st) ((\<lambda>p. fst p + 1) ` set items))"
proof (induction items arbitrary: st)
  case Nil
  then show ?case by simp
next
  case (Cons p items)
  obtain i w where p: "p = (i, w)" by (cases p)
  from Cons.prems obtain st1 where s1: "add_item h i w st = Inr st1"
    and s2: "add_items h items st1 = Inr st'"
    by (auto simp: p split: sum.splits)
  note a = add_item_facts [OF s1]
  note ih = Cons.IH [OF s2]
  have m: "Max (insert (n_items st1) ((\<lambda>p. fst p + 1) ` set items))
        = Max (insert (n_items st) ((\<lambda>p. fst p + 1) ` set (p # items)))"
  proof -
    have fin: "finite ((\<lambda>p. fst p + 1) ` set items)" by simp
    show ?thesis
    proof (cases "items = []")
      case True
      then show ?thesis by (simp add: a(2) p max.commute)
    next
      case False
      then have ne: "(\<lambda>p. fst p + 1) ` set items \<noteq> {}" by simp
      show ?thesis
        using fin ne by (simp add: a(2) p Max_insert max.assoc max.commute max.left_commute)
    qed
  qed
  have "i + 1 \<le> nodes_size st'" using a(3) ih by simp
  then show ?case using ih a m by (simp add: p)
qed

lemma add_item_overwrite:
  assumes sz: "i + 1 \<le> nodes_size st" and i: "i < n_items st"
    and add: "add_item h i w st = Inr st'"
  shows "n_items st' = n_items st" and "get_item st' i = Inr (take (f_dim st) w)"
    and "j \<noteq> i \<Longrightarrow> get_item st' j = get_item st j"
proof -
  from add obtain st1 a1 a2 where
    w: "f_dim st \<le> length w"
    and alloc: "allocate_size h (i + 1) st = Inr st1"
    and p1: "poke_block (nodes st1) (node_base st1 i) [1] = Inr a1"
    and p2: "poke_block a1 (node_base st1 i + 3) (take (f_dim st) w) = Inr a2"
    and st': "st' = st1\<lparr>nodes := a2, n_items := (if i \<ge> n_items st1 then i + 1 else n_items st1)\<rparr>"
    by (rule add_item_Inr)
  have st1: "st1 = st" using allocate_size_facts(5) [OF alloc sz] .
  have i0: "0 \<le> i" using add_item_facts(1) [OF add] .
  show "n_items st' = n_items st" using i by (simp add: st' st1)
  have lw: "length (take (f_dim st) w) = f_dim st" using w by simp
  show "get_item st' i = Inr (take (f_dim st) w)"
    using block_at_poke_same [OF p2] i0 lw
    by (simp add: get_item_def node_v_def st' st1 node_base_def)
  show "get_item st' j = get_item st j" if ji: "j \<noteq> i"
  proof (cases "0 \<le> j")
    case False
    then show ?thesis by (simp add: get_item_def node_v_def)
  next
    case True
    let ?s = "int (3 + f_dim st)"
    note off = node_v_offsets [OF ji, of "f_dim st"]
    have d2: "(?s * j + 3) + int (f_dim st) \<le> ?s * i + 3
              \<or> (?s * i + 3) + int (length (take (f_dim st) w)) \<le> ?s * j + 3"
      using off lw by auto
    have d1: "(?s * j + 3) + int (f_dim st) \<le> ?s * i
              \<or> ?s * i + int (length [1::cell]) \<le> ?s * j + 3"
      using off by auto
    have p2': "poke_block a1 (?s * i + 3) (take (f_dim st) w) = Inr a2"
      using p2 by (simp add: st1 node_base_def s_cells_eq)
    have p1': "poke_block (nodes st) (?s * i) [1] = Inr a1"
      using p1 by (simp add: st1 node_base_def s_cells_eq)
    have "block_at a2 (?s * j + 3) (f_dim st) = block_at a1 (?s * j + 3) (f_dim st)"
      by (rule block_at_poke_other [OF p2' d2])
    also have "\<dots> = block_at (nodes st) (?s * j + 3) (f_dim st)"
      by (rule block_at_poke_other [OF p1' d1])
    finally show ?thesis
      using True by (simp add: get_item_def node_v_def st' st1 node_base_def s_cells_eq)
  qed
qed

lemma load_z:
  "load env0 os_z ''z.idx'' (JakubeIndex 1 ()) = (Some (Failed ''Unable to mmap nodes''), st_z)"
  by (simp add: load_def unload_def read_cell_def JakubeIndex_def os_z_def env0_def K_of_def
      s_bytes_def st_z_def)

lemma add_z: "add_item env0 0 [5] st_z = Inr st_z1"
  by (simp add: add_item_def allocate_size_def env0_def st_z_def st_z1_def grow13_def
      s_bytes_def s_cells_def realloc_def poke_block_def patch_def node_base_def upt_rec)

text \<open>
  Claim C10, as stated, fails: \<open>n_items\<close> is only ever raised by \<open>add_item\<close>, so on an
  unbuilt index whose \<open>n_items\<close> is already positive it need not be one plus the largest
  id added. The file \<open>z.idx\<close> holds the header \<open>{1, 100, 0, 0, 1, 0}\<close>; \<open>load\<close> on a
  fresh index with \<open>f = 1\<close> reads \<open>_n_items = 100\<close> and \<open>_n_nodes = 0\<close>, fails at \<open>mmap\<close>
  of zero bytes and returns without resetting the fields it has read. The index is unbuilt,
  \<open>add_item(0, {5})\<close> succeeds on it, and \<open>n_items\<close> is still 100, where one plus the
  largest id added is 1.
\<close>

theorem add_item_after_failed_load_counterexample:
  "load env0 os_z ''z.idx'' (JakubeIndex 1 ()) = (Some (Failed ''Unable to mmap nodes''), st_z) \<and>
   \<not> built st_z \<and> n_items st_z = 100 \<and>
   add_item env0 0 [5] st_z = Inr st_z1 \<and>
   add_items env0 [(0, [5])] st_z = Inr st_z1 \<and>
   n_items st_z1 = 100 \<and>
   1 + Max (fst ` set [(0 :: int, [5 :: cell])]) = 1 \<and>
   n_items st_z1 \<noteq> 1 + Max (fst ` set [(0 :: int, [5 :: cell])])"
proof -
  have "\<not> built st_z" "n_items st_z = 100" by (simp_all add: st_z_def)
  moreover have "n_items st_z1 = 100" by (simp add: st_z1_def)
  moreover have "add_items env0 [(0, [5])] st_z = Inr st_z1" by (simp add: add_z)
  ultimately show ?thesis using load_z add_z by simp
qed

text \<open>
  Claim C10, amended. After any non-empty sequence of successful \<open>add_item\<close> calls,
  \<open>n_items\<close> is the larger of its value before the sequence and one plus the largest id
  added in the sequence; hence it is one plus the largest id added when \<open>n_items\<close> was 0
  before, as on a freshly constructed index. Adding once more under an id of the sequence
  leaves \<open>n_items\<close> as it is, stores the first \<open>f\<close> values of the new vector under that
  id and leaves \<open>get_item\<close> of every other id unchanged. (A successful \<open>add_item\<close> implies
  that the index is unbuilt.)
\<close>

theorem add_item_n_items_max_and_overwrite:
  assumes ne: "items \<noteq> []"
    and run: "add_items h items st = Inr st'"
  shows "n_items st' = max (n_items st) (1 + Max (fst ` set items)) \<and>
         (n_items st = 0 \<longrightarrow> n_items st' = 1 + Max (fst ` set items)) \<and>
         (\<forall>i w st''. i \<in> fst ` set items \<longrightarrow> add_item h i w st' = Inr st'' \<longrightarrow>
            n_items st'' = n_items st' \<and> get_item st'' i = Inr (take (f_dim st') w) \<and>
            (\<forall>j. j \<noteq> i \<longrightarrow> get_item st'' j = get_item st' j))"
proof -
  note a = add_items_facts [OF run]
  have fin: "finite (fst ` set items)" and nemp: "fst ` set items \<noteq> {}"
    using ne by simp_all
  obtain p where p: "p \<in> set items" using ne by (cases items) auto
  then have "0 \<le> fst p" using a by blast
  also have "fst p \<le> Max (fst ` set items)" using p fin by simp
  finally have pos: "0 \<le> Max (fst ` set items)" .
  have img: "(\<lambda>p. fst p + 1) ` set items = (\<lambda>x. x + 1) ` (fst ` set items)"
    by (simp add: image_image)
  have "Max ((\<lambda>x. x + 1) ` (fst ` set items)) = Max (fst ` set items) + 1"
    using fin nemp by (simp add: mono_Max_commute [symmetric] mono_def)
  then have n: "n_items st' = max (n_items st) (1 + Max (fst ` set items))"
    using a fin nemp by (simp add: img max.commute)
  have n0: "n_items st = 0 \<longrightarrow> n_items st' = 1 + Max (fst ` set items)"
    using n pos by simp
  have "n_items st'' = n_items st' \<and> get_item st'' i = Inr (take (f_dim st') w) \<and>
        (\<forall>j. j \<noteq> i \<longrightarrow> get_item st'' j = get_item st' j)"
    if i: "i \<in> fst ` set items" and add: "add_item h i w st' = Inr st''" for i w st''
  proof -
    have "i \<le> Max (fst ` set items)" using i fin by simp
    then have lt: "i < n_items st'" using n by simp
    have sz: "i + 1 \<le> nodes_size st'" using i a by auto
    show ?thesis
      using add_item_overwrite [OF sz lt add] by simp
  qed
  then show ?thesis using n n0 by blast
qed

lemma run_two: "add_items env0 [(0, [3]), (2, [6])] (JakubeIndex 1 ()) = Inr st_two"
  by (simp add: add_item_def allocate_size_def JakubeIndex_def env0_def st_two_def grow13_def
      s_bytes_def s_cells_def K_of_def realloc_def poke_block_def patch_def node_base_def upt_rec)

lemma readd_two: "add_item env0 0 [9] st_two = Inr st_two_again"
  by (simp add: add_item_def allocate_size_def env0_def st_two_def st_two_again_def
      s_bytes_def s_cells_def poke_block_def patch_def node_base_def)

theorem add_item_n_items_max_and_overwrite_witness:
  "add_items env0 [(0, [3]), (2, [6])] (JakubeIndex 1 ()) = Inr st_two \<and>
   n_items (JakubeIndex 1 ()) = 0 \<and> n_items st_two = 3 \<and>
   add_item env0 0 [9] st_two = Inr st_two_again \<and>
   n_items st_two_again = 3 \<and> get_item st_two_again 0 = Inr [9] \<and>
   get_item st_two_again 2 = Inr [6]"
proof -
  have ne: "[(0, [3]), (2, [6::cell])] \<noteq> ([] :: (int \<times> cell list) list)" by simp
  note t = add_item_n_items_max_and_overwrite [OF ne run_two]
  have z: "n_items (JakubeIndex 1 ()) = 0" by (simp add: JakubeIndex_def)
  have mem: "(0::int) \<in> fst ` set [(0, [3]), (2, [6::cell])]" by simp
  have f: "f_dim st_two = 1" by (simp add: st_two_def)
  from t z have n: "n_items st_two = 1 + Max (fst ` set [(0 :: int, [3]), (2, [6::cell])])"
    by blast
  from t have "n_items st_two_again = n_items st_two \<and>
      get_item st_two_again 0 = Inr (take (f_dim st_two) [9]) \<and>
      (\<forall>j. j \<noteq> 0 \<longrightarrow> get_item st_two_again j = get_item st_two j)"
    using mem readd_two by blast
  moreover have "get_item st_two 2 = Inr [6]"
    by (simp add: get_item_def node_v_def block_at_def node_base_def st_two_def
        s_cells_def s_bytes_def)
  moreover have "n_items st_two = 3" using n by simp
  ultimately show ?thesis using run_two readd_two z f by simp
qed

section \<open>Termination of \<open>build\<close>\<close>

lemma honest_replay: "honest replay_ops"
  by (simp add: honest_def replay_ops_def split: list.splits)

lemmas add_item_eval =
  add_item_def allocate_size_def JakubeIndex_def grow13_def s_bytes_def s_cells_def K_of_def
  realloc_def poke_block_def patch_def node_base_def upt_rec

text \<open>
  Claim C1 (the code does not do this). The claim says that \<open>build(q)\<close> runs to completion
  and that the fallback loop of \<open>_make_tree\<close> ends. On the index with \<open>f = 1\<close> holding the
  single item \<open>add_item(0, {3})\<close>, \<open>build(1)\<close> has not returned within any bound on the
  number of passes of that loop.
\<close>

theorem build_single_item_never_returns:
  "add_items env0 [(0, [3])] (JakubeIndex 1 [0]) = Inr st_single \<and>
   (\<forall>fuel. build fuel replay_ops env0 1 st_single = None)"
proof -
  have run: "add_items env0 [(0, [3])] (JakubeIndex 1 [0]) = Inr st_single"
    by (simp add: add_item_eval env0_def st_single_def)
  have inv: "arena_inv st_single"
    by (simp add: arena_inv_def st_single_def s_cells_def s_bytes_def)
  have "build fuel replay_ops env0 1 st_single = None" for fuel
    by (rule build_None [OF honest_replay inv]) (simp_all add: st_single_def)
  then show ?thesis using run by simp
qed

text \<open>
  Claim C2, as stated, fails: on the index holding the items \<open>{1}\<close> and \<open>{2}\<close>, with a
  generator whose first draws are 31, 30 and 30, the loop leaves with \<open>attempt = 3\<close> and
  the partition \<open>([0], [1])\<close> of the third attempt, while the first attempt had produced
  \<open>([1], [0])\<close>.
\<close>

theorem split_loop_first_attempt_counterexample:
  "split_loop replay_ops st_pair [0, 1] [[1], [2]] 0 ([], []) 0 [31, 30, 30]
     = Inr (([0], [1]), 30, [31, 30, 30], 3) \<and>
   split_attempt replay_ops st_pair [0, 1] [[1], [2]] 0 [31, 30, 30]
     = Inr (([1], [0]), 31, [30, 30, 31])"
  by (simp add: split_loop.simps split_attempt_def create_split_def random_tries.simps margin_def
      size_t_of_int_def node_v_def block_at_def node_base_def s_cells_def s_bytes_def
      replay_ops_def st_pair_def split_imbalance_def)

text \<open>
  Claim C2, amended. \<open>_split_imbalance\<close> is at least \<open>1.0\<close> for every pair of lists, so
  the test against \<open>0.95\<close> never succeeds; consequently the loop never leaves early: it
  makes all three attempts (unless one faults) and hands on the partition, the split bit and
  the generator state of the third, with \<open>attempt = 3\<close>.
\<close>

theorem split_loop_runs_all_attempts:
  "1 \<le> split_imbalance left right \<and>
   \<not> split_imbalance left right < 95 / 100 \<and>
   split_loop ops st indices ys 0 c v0 r =
     (case split_attempt ops st indices ys v0 r of
        Inl e \<Rightarrow> Inl e
      | Inr (c1, v1, r1) \<Rightarrow>
         (case split_attempt ops st indices ys v1 r1 of
            Inl e \<Rightarrow> Inl e
          | Inr (c2, v2, r2) \<Rightarrow>
             (case split_attempt ops st indices ys v2 r2 of
                Inl e \<Rightarrow> Inl e
              | Inr (c3, v3, r3) \<Rightarrow> Inr (c3, v3, r3, 3))))"
  using split_imbalance_ge_1 [of left right] no_break [of left right]
    split_loop_three_attempts [of ops st indices ys c v0 r] by simp

text \<open>
  Claim C6 (the code does not get there). The claim is about the arena after \<open>build\<close>. On
  the index of the repository's test (\<open>f = 1\<close>, three items), \<open>build(5)\<close> has not returned
  within any bound, so there is no arena after it: no tree node is ever appended.
\<close>

theorem build_three_items_never_returns:
  "add_items env0 [(0, [3]), (1, [6]), (2, [15])] (JakubeIndex 1 [7, 12]) = Inr st_three \<and>
   (\<forall>fuel. build fuel replay_ops env0 5 st_three = None)"
proof -
  have run: "add_items env0 [(0, [3]), (1, [6]), (2, [15])] (JakubeIndex 1 [7, 12]) = Inr st_three"
    by (simp add: add_item_eval env0_def st_three_def)
  have inv: "arena_inv st_three"
    by (simp add: arena_inv_def st_three_def s_cells_def s_bytes_def)
  have "build fuel replay_ops env0 5 st_three = None" for fuel
    by (rule build_None [OF honest_replay inv]) (simp_all add: st_three_def)
  then show ?thesis using run by simp
qed

text \<open>
  Claim C9 (the code does not get there). Two indices with \<open>f = 1\<close>, \<open>set_seed(42)\<close> and the
  same three \<open>add_item\<close> calls, one under each allocator: on neither has \<open>build(5)\<close>
  returned within any bound, so there are no arena bytes after build and no query results
  to compare. (The arenas differ already before \<open>build\<close>: \<open>add_item\<close> leaves the children
  cells of a value node as the allocator handed them out.)
\<close>

theorem build_same_seed_never_returns:
  "add_items env0 [(0, [3]), (1, [6]), (2, [15])] (set_seed replay_ops 42 (JakubeIndex 1 []))
     = Inr st_seed0 \<and>
   add_items env1 [(0, [3]), (1, [6]), (2, [15])] (set_seed replay_ops 42 (JakubeIndex 1 []))
     = Inr st_seed1 \<and>
   nodes st_seed0 \<noteq> nodes st_seed1 \<and>
   (\<forall>fuel. build fuel replay_ops env0 5 st_seed0 = None \<and>
            build fuel replay_ops env1 5 st_seed1 = None)"
proof -
  have diff: "nodes st_seed0 \<noteq> nodes st_seed1"
    by (simp add: st_seed0_def st_seed1_def)
  have run0: "add_items env0 [(0, [3]), (1, [6]), (2, [15])]
      (set_seed replay_ops 42 (JakubeIndex 1 [])) = Inr st_seed0"
    by (simp add: add_item_eval set_seed_def replay_ops_def env0_def st_seed0_def)
  have run1: "add_items env1 [(0, [3]), (1, [6]), (2, [15])]
      (set_seed replay_ops 42 (JakubeIndex 1 [])) = Inr st_seed1"
    by (simp add: add_item_eval set_seed_def replay_ops_def env1_def st_seed1_def)
  have inv0: "arena_inv st_seed0"
    by (simp add: arena_inv_def st_seed0_def s_cells_def s_bytes_def)
  have inv1: "arena_inv st_seed1"
    by (simp add: arena_inv_def st_seed1_def s_cells_def s_bytes_def)
  have "build fuel replay_ops env0 5 st_seed0 = None" for fuel
    by (rule build_None [OF honest_replay inv0]) (simp_all add: st_seed0_def)
  moreover have "build fuel replay_ops env1 5 st_seed1 = None" for fuel
    by (rule build_None [OF honest_replay inv1]) (simp_all add: st_seed1_def)
  ultimately show ?thesis using run0 run1 diff by simp
qed

section \<open>The result of a query\<close>



lemma popcount_nat_0 [simp]: "popcount_nat 0 = 0" by (simp add: popcount_nat.simps)
lemma popcount_nat_1 [simp]: "popcount_nat 1 = 1" by (simp add: popcount_nat.simps)
lemma popcount_nat_Suc_0 [simp]: "popcount_nat (Suc 0) = 1" by (simp add: popcount_nat.simps)
lemma popcount_nat_Bit0 [simp]: "popcount_nat (numeral (Num.Bit0 n)) = popcount_nat (numeral n)"
  by (subst popcount_nat.simps) simp
lemma popcount_nat_Bit1 [simp]: "popcount_nat (numeral (Num.Bit1 n)) = popcount_nat (numeral n) + 1"
  by (subst popcount_nat.simps) (simp add: numeral_Bit1_div_2)
lemma unat_minus_1_64 [simp]: "unat (- 1 :: 64 word) = 18446744073709551615"
  by (simp add: unsigned_minus_1_eq_mask mask_eq_exp_minus_1)




lemma node_n_descendants_negative: "i < 0 \<Longrightarrow> node_n_descendants st i = Inl Fault"
proof -
  assume "i < 0"
  then have "int (s_cells (f_dim st)) * i < 0"
    by (simp add: s_cells_def s_bytes_def mult_pos_neg)
  then show ?thesis
    by (simp add: node_n_descendants_def node_base_def cell_at_def split: option.splits)
qed

lemma map_sum_id_Inr: "map_sum id g x = Inr y \<longleftrightarrow> (\<exists>z. x = Inr z \<and> y = g z)"
  by (cases x) auto

lemma rerank_ge:
  "rerank st v lst js = Inr out \<Longrightarrow> - 1 \<le> lst \<Longrightarrow> \<forall>x \<in> set js. - 1 \<le> x"
proof (induction js arbitrary: lst out)
  case Nil
  then show ?case by simp
next
  case (Cons j js)
  show ?case
  proof (cases "j = lst")
    case True
    then show ?thesis using Cons by auto
  next
    case False
    from Cons.prems(1) False obtain nd where nd: "node_n_descendants st j = Inr nd"
      by (auto split: sum.splits)
    then have j: "0 \<le> j" using node_n_descendants_negative [of j st] by (cases "j < 0") auto
    from Cons.prems(1) False nd obtain out' where "rerank st v j js = Inr out'"
      by (auto simp: map_sum_id_Inr split: sum.splits if_splits)
    then have "\<forall>x \<in> set js. - 1 \<le> x" using Cons.IH j by force
    then show ?thesis using j by simp
  qed
qed

lemma rerank_ids:
  assumes "sorted js" and "\<forall>x \<in> set js. lst \<le> x" and "rerank st v lst js = Inr out"
  shows "set (map snd out) = {j \<in> set js. j \<noteq> lst \<and> node_n_descendants st j = Inr 1}
         \<and> distinct (map snd out) \<and> (\<forall>x \<in> set (map snd out). lst < x)"
  using assms
proof (induction js arbitrary: lst out)
  case Nil
  then show ?case by simp
next
  case (Cons j js)
  have sorted_js: "sorted js" and ge: "\<forall>x \<in> set js. j \<le> x"
    using Cons.prems(1) by simp_all
  show ?case
  proof (cases "j = lst")
    case True
    then have "rerank st v lst js = Inr out" using Cons.prems(3) by simp
    moreover have "\<forall>x \<in> set js. lst \<le> x" using Cons.prems(2) by simp
    ultimately show ?thesis using Cons.IH [OF sorted_js] True by auto
  next
    case False
    then have lt: "lst < j" using Cons.prems(2) by auto
    from Cons.prems(3) False obtain nd where nd: "node_n_descendants st j = Inr nd"
      by (auto split: sum.splits)
    show ?thesis
    proof (cases "nd = 1")
      case True
      from Cons.prems(3) False nd True obtain y out' where
        y: "node_v st j = Inr y" and out': "rerank st v j js = Inr out'"
        and out: "out = (distance v y, j) # out'"
        by (auto simp: map_sum_id_Inr split: sum.splits)
      note ih = Cons.IH [OF sorted_js ge out']
      have "set (map snd out) = insert j {x \<in> set js. x \<noteq> j \<and> node_n_descendants st x = Inr 1}"
        using ih by (simp add: out)
      also have "\<dots> = {x \<in> set (j # js). x \<noteq> lst \<and> node_n_descendants st x = Inr 1}"
        using lt ge nd True by auto
      finally have set_eq:
        "set (map snd out) = {x \<in> set (j # js). x \<noteq> lst \<and> node_n_descendants st x = Inr 1}" .
      have gt: "\<forall>x \<in> set (map snd out'). j < x" using ih by blast
      have dd: "distinct (map snd out')" using ih by blast
      have "distinct (map snd out)" using gt dd by (auto simp: out)
      moreover have "\<forall>x \<in> set (map snd out). lst < x" using gt lt by (auto simp: out)
      ultimately show ?thesis using set_eq by blast
    next
      case False
      with Cons.prems(3) \<open>j \<noteq> lst\<close> nd have out': "rerank st v j js = Inr out" by simp
      note ih = Cons.IH [OF sorted_js ge out']
      have sets: "{x \<in> set js. x \<noteq> j \<and> node_n_descendants st x = Inr 1}
            = {x \<in> set (j # js). x \<noteq> lst \<and> node_n_descendants st x = Inr 1}"
        using lt ge nd False by auto
      have "set (map snd out) = {x \<in> set js. x \<noteq> j \<and> node_n_descendants st x = Inr 1}"
        using ih by blast
      then have set_eq:
        "set (map snd out) = {x \<in> set (j # js). x \<noteq> lst \<and> node_n_descendants st x = Inr 1}"
        unfolding sets .
      have gt: "\<forall>x \<in> set (map snd out). j < x" using ih by blast
      have "\<forall>x \<in> set (map snd out). lst < x"
      proof
        fix x assume "x \<in> set (map snd out)"
        then have "j < x" using gt by blast
        then show "lst < x" using lt by simp
      qed
      moreover have "distinct (map snd out)" using ih by blast
      ultimately show ?thesis using set_eq by blast
    qed
  qed
qed

lemma rerank_count:
  assumes "rerank st v (- 1) (sort nns) = Inr out"
  shows "length out = card {j \<in> set nns. node_n_descendants st j = Inr 1}" and "distinct out"
proof -
  have ge: "\<forall>x \<in> set (sort nns). - 1 \<le> x"
    using rerank_ge [OF assms] by simp
  note ids = rerank_ids [OF _ ge assms]
  have "{j \<in> set (sort nns). j \<noteq> - 1 \<and> node_n_descendants st j = Inr 1}
        = {j \<in> set nns. node_n_descendants st j = Inr 1}"
    using node_n_descendants_negative [of "- 1" st] by auto
  then have set_eq: "set (map snd out) = {j \<in> set nns. node_n_descendants st j = Inr 1}"
    using ids by simp
  have d: "distinct (map snd out)" using ids by simp
  have "card (set (map snd out)) = length (map snd out)" by (rule distinct_card [OF d])
  then have "length out = card (set (map snd out))" by simp
  then show "length out = card {j \<in> set nns. node_n_descendants st j = Inr 1}"
    unfolding set_eq .
  show "distinct out" using d by (simp add: distinct_map)
qed

lemma best_order:
  fixes out :: "(int \<times> int) list"
  assumes "distinct out" and "a < b" and "b < length (take p (sort out))"
  shows "fst (take p (sort out) ! a) \<le> fst (take p (sort out) ! b)"
    and "fst (take p (sort out) ! a) = fst (take p (sort out) ! b) \<Longrightarrow>
         snd (take p (sort out) ! a) < snd (take p (sort out) ! b)"
proof -
  let ?best = "take p (sort out)"
  have "sorted ?best" by (simp add: sorted_wrt_take)
  moreover have "distinct ?best" using assms(1) by simp
  ultimately have "sorted_wrt (<) ?best" by (simp add: strict_sorted_iff)
  then have lt: "?best ! a < ?best ! b"
    using assms(2,3) by (rule sorted_wrt_nth_less)
  then show "fst (?best ! a) \<le> fst (?best ! b)"
    by (cases "?best ! a"; cases "?best ! b") auto
  show "snd (?best ! a) < snd (?best ! b)" if "fst (?best ! a) = fst (?best ! b)"
    using lt that by (cases "?best ! a"; cases "?best ! b") auto
qed

lemma query_result_shape:
  assumes "get_nns_by_vector fuel st v n search_k = Some (Inr (ids, dists))"
  shows "\<exists>nns. gather fuel st v (search_limit n (length (roots st)) search_k)
                 (map (\<lambda>r. (pq_initial_value, r)) (roots st)) [] = Some (Inr nns) \<and>
           length ids = min n (card {j \<in> set nns. node_n_descendants st j = Inr 1}) \<and>
           length dists = length ids \<and> sorted dists \<and>
           (\<forall>a b. a < b \<and> b < length ids \<and> dists ! a = dists ! b \<longrightarrow> ids ! a < ids ! b)"
proof -
  from assms obtain nns out where
    g: "gather fuel st v (search_limit n (length (roots st)) search_k)
          (map (\<lambda>r. (pq_initial_value, r)) (roots st)) [] = Some (Inr nns)"
    and r: "rerank st (take (f_dim st) v) (- 1) (sort nns) = Inr out"
    and ids: "ids = map snd (take (min n (length out)) (sort out))"
    and dists: "dists = map fst (take (min n (length out)) (sort out))"
    by (auto simp: get_nns_by_vector_def get_all_nns_def Let_def min_def
        split: if_splits option.splits sum.splits)
  let ?best = "take (min n (length out)) (sort out)"
  note cnt = rerank_count [OF r]
  have len: "length ids = min n (card {j \<in> set nns. node_n_descendants st j = Inr 1})"
    using cnt(1) by (simp add: ids)
  have len2: "length dists = length ids" by (simp add: ids dists)
  have lb: "length ?best = length ids" by (simp add: ids)
  have mono: "dists ! a \<le> dists ! b" if "a < b" "b < length dists" for a b
    using best_order(1) [OF cnt(2), of a b "min n (length out)"] that
    by (simp add: dists)
  have "sorted dists"
    unfolding sorted_iff_nth_mono_less using mono by blast
  moreover have "ids ! a < ids ! b" if "a < b" "b < length ids" "dists ! a = dists ! b" for a b
    using best_order(2) [OF cnt(2), of a b "min n (length out)"] that
    by (simp add: dists ids)
  ultimately show ?thesis using g len len2 by blast
qed


subsection \<open>The traversal ends on a well-formed forest\<close>



lemma fold_max_in: "fold max xs (x :: 'a :: linorder) \<in> set (x # xs)"
  by (induction xs arbitrary: x) (auto simp: max_def)

lemma pq_top_in: "q \<noteq> [] \<Longrightarrow> fold max (tl q) (hd q :: 'a :: linorder) \<in> set q"
  using fold_max_in [of "tl q" "hd q"] by (cases q) auto

lemma weight_remove1: "e \<in> set q \<Longrightarrow> weight q = 3 ^ nat (snd e) + weight (remove1 e q)"
  by (simp add: weight_def sum_list_map_remove1)

lemma weight_Cons: "weight (e # q) = 3 ^ nat (snd e) + weight q"
  by (simp add: weight_def)

lemma forest_node_ok:
  "forest_ok st \<Longrightarrow> 0 \<le> i \<Longrightarrow> i < n_nodes st \<Longrightarrow> node_ok st i"
proof -
  assume a: "forest_ok st" "0 \<le> i" "i < n_nodes st"
  then have "nat i \<in> set [0..<nat (n_nodes st)]" by simp
  moreover have "\<forall>x \<in> set [0..<nat (n_nodes st)]. node_ok st (int x)"
    using a(1) by (simp add: forest_ok_def list_all_iff)
  ultimately have "node_ok st (int (nat i))" by blast
  then show ?thesis using a(2) by simp
qed

lemma forest_item_v:
  "forest_ok st \<Longrightarrow> 0 \<le> i \<Longrightarrow> i < n_items st \<Longrightarrow> \<exists>y. node_v st i = Inr y"
proof -
  assume a: "forest_ok st" "0 \<le> i" "i < n_items st"
  then have "nat i \<in> set [0..<nat (n_items st)]" by simp
  moreover have "\<forall>x \<in> set [0..<nat (n_items st)]. \<exists>y. node_v st (int x) = Inr y"
    using a(1) by (simp add: forest_ok_def list_all_iff)
  ultimately have "\<exists>y. node_v st (int (nat i)) = Inr y" by blast
  then show ?thesis using a(2) by simp
qed

lemma child_weight:
  assumes "0 \<le> c0" "c0 < i" "0 \<le> c1" "c1 < i"
  shows "(3::nat) ^ nat c0 + 3 ^ nat c1 < 3 ^ nat i"
proof -
  obtain k where k: "nat i = Suc k" using assms by (cases "nat i") auto
  have "nat c0 \<le> k" "nat c1 \<le> k" using assms k by linarith+
  then have "(3::nat) ^ nat c0 \<le> 3 ^ k" "(3::nat) ^ nat c1 \<le> 3 ^ k"
    by (simp_all add: power_increasing)
  then have "(3::nat) ^ nat c0 + 3 ^ nat c1 \<le> 3 ^ k + 3 ^ k" by (rule add_mono)
  then have "(3::nat) ^ nat c0 + 3 ^ nat c1 \<le> 2 * 3 ^ k" by simp
  also have "\<dots> < 3 ^ Suc k" by simp
  finally show ?thesis by (simp add: k)
qed


lemma gather_total:
  assumes ok: "forest_ok st" and v: "f_dim st \<le> length v"
  shows "list_all (\<lambda>e. 0 \<le> snd e \<and> snd e < n_nodes st) q \<Longrightarrow>
         list_all (\<lambda>j. 0 \<le> j \<and> j < n_items st) nns \<Longrightarrow> weight q \<le> fuel \<Longrightarrow>
         \<exists>out. gather fuel st v limit q nns = Some (Inr out) \<and>
               list_all (\<lambda>j. 0 \<le> j \<and> j < n_items st) out"
proof (induction fuel arbitrary: q nns)
  case 0
  have "q = []"
  proof (rule ccontr)
    assume "q \<noteq> []"
    then obtain e q' where "q = e # q'" by (cases q) auto
    then have "0 < weight q" by (simp add: weight_Cons)
    then show False using 0 by simp
  qed
  then show ?case using 0 by (subst gather.simps) simp
next
  case (Suc n)
  show ?case
  proof (cases "length nns < limit \<and> q \<noteq> []")
    case False
    then show ?thesis using Suc.prems(2) by (subst gather.simps) auto
  next
    case True
    define top where "top = fold max (tl q) (hd q)"
    define i where "i = snd top"
    define q' where "q' = remove1 top q"
    have top_in: "top \<in> set q" using True by (simp add: top_def pq_top_in)
    then have i: "0 \<le> i" "i < n_nodes st"
      using Suc.prems(1) by (auto simp: i_def list_all_iff)
    have w: "weight q = 3 ^ nat i + weight q'"
      using weight_remove1 [OF top_in] by (simp add: i_def q'_def)
    have q'_ok: "list_all (\<lambda>e. 0 \<le> snd e \<and> snd e < n_nodes st) q'"
      using Suc.prems(1) by (auto simp: q'_def list_all_iff dest: notin_set_remove1)
    have one: "(1::nat) \<le> 3 ^ nat i" by simp
    have w': "weight q' \<le> n" using w Suc.prems(3) one by linarith
    have nok: "node_ok st i" using forest_node_ok [OF ok i] .
    then obtain nd where nd: "node_n_descendants st i = Inr nd"
      by (auto simp: node_ok_def split: sum.splits)
    have step: "gather (Suc n) st v limit q nns =
        (if nd = 1 \<and> i < n_items st then gather n st v limit q' (nns @ [i])
         else if nd \<le> K_grp st then
           (case node_children st i nd of
              Inl e \<Rightarrow> Some (Inl e)
            | Inr dst \<Rightarrow> gather n st v limit q' (nns @ dst))
         else
           (case cell_at (nodes st) (node_base st i + 3) of
              Inl e \<Rightarrow> Some (Inl e)
            | Inr v0 \<Rightarrow>
               (case margin v0 v of
                  Inl e \<Rightarrow> Some (Inl e)
                | Inr mg \<Rightarrow>
                   (case node_child st i 1 of
                      Inl e \<Rightarrow> Some (Inl e)
                    | Inr c1 \<Rightarrow>
                       (case node_child st i 0 of
                          Inl e \<Rightarrow> Some (Inl e)
                        | Inr c0 \<Rightarrow>
                           gather n st v limit
                             ((pq_distance (fst top) mg False, c0)
                                # (pq_distance (fst top) mg True, c1) # q') nns)))))"
      using True nd unfolding i_def q'_def top_def
      by (subst gather.simps) (simp add: Let_def)
    show ?thesis
    proof (cases "nd = 1 \<and> i < n_items st")
      case True
      then have "list_all (\<lambda>j. 0 \<le> j \<and> j < n_items st) (nns @ [i])"
        using Suc.prems(2) i by simp
      then show ?thesis using Suc.IH [OF q'_ok _ w'] True by (auto simp: step)
    next
      case not_value: False
      show ?thesis
      proof (cases "nd \<le> K_grp st")
        case True
        then obtain dst where dst: "node_children st i nd = Inr dst"
          and dst_ok: "list_all (\<lambda>c. 0 \<le> c \<and> c < n_items st) dst"
          using nok nd not_value by (auto simp: node_ok_def split: sum.splits)
        have "list_all (\<lambda>j. 0 \<le> j \<and> j < n_items st) (nns @ dst)"
          using Suc.prems(2) dst_ok by simp
        then show ?thesis
          using Suc.IH [OF q'_ok _ w'] True not_value dst by (auto simp: step)
      next
        case False
        then obtain v0 c0 c1 where v0: "cell_at (nodes st) (node_base st i + 3) = Inr v0"
          and c0: "node_child st i 0 = Inr c0" and c1: "node_child st i 1 = Inr c1"
          and bit: "0 \<le> sint v0" "sint v0 < int (f_dim st * 32)"
          and ch: "0 \<le> c0" "c0 < i" "0 \<le> c1" "c1 < i"
          using nok nd not_value by (auto simp: node_ok_def split: sum.splits)
        have "sint v0 < 2 ^ 64"
          using sint_lt [of v0] by simp
        then have "size_t_of_int (sint v0) = nat (sint v0)"
          using bit(1) by (simp add: size_t_of_int_def)
        moreover have "nat (sint v0) div 32 < length v"
          using bit v by (simp add: less_mult_imp_div_less nat_less_iff)
        ultimately obtain mg where mg: "margin v0 v = Inr mg"
          by (simp add: margin_def Let_def)
        let ?q = "(pq_distance (fst top) mg False, c0) # (pq_distance (fst top) mg True, c1) # q'"
        have "list_all (\<lambda>e. 0 \<le> snd e \<and> snd e < n_nodes st) ?q"
          using q'_ok ch i by simp
        moreover have "weight ?q \<le> n"
          using child_weight [OF ch] w Suc.prems(3) by (simp add: weight_Cons)
        ultimately show ?thesis
          using Suc.IH [of ?q nns] Suc.prems(2) False not_value
          by (auto simp: step v0 mg c0 c1)
      qed
    qed
  qed
qed



lemma rerank_total:
  assumes ok: "forest_ok st"
  shows "list_all (\<lambda>j. 0 \<le> j \<and> j < n_items st) js \<Longrightarrow> \<exists>out. rerank st w lst js = Inr out"
proof (induction js arbitrary: lst)
  case Nil
  then show ?case by simp
next
  case (Cons j js)
  then have j: "0 \<le> j" "j < n_items st" and rest: "list_all (\<lambda>j. 0 \<le> j \<and> j < n_items st) js"
    by simp_all
  have "j < n_nodes st" using j ok by (simp add: forest_ok_def)
  then have "node_ok st j" using forest_node_ok [OF ok j(1)] by simp
  then obtain nd where nd: "node_n_descendants st j = Inr nd"
    by (auto simp: node_ok_def split: sum.splits)
  obtain y where y: "node_v st j = Inr y" using forest_item_v [OF ok j] by blast
  obtain o1 where o1: "rerank st w lst js = Inr o1" using Cons.IH [OF rest] by blast
  obtain o2 where o2: "rerank st w j js = Inr o2" using Cons.IH [OF rest] by blast
  show ?case by (simp add: nd y o1 o2)
qed

lemma get_all_nns_total:
  assumes ok: "forest_ok st" and v: "f_dim st \<le> length v"
  shows "\<exists>fuel ids dists. get_all_nns fuel st v n search_k = Some (Inr (ids, dists))"
proof -
  let ?q = "map (\<lambda>r. (pq_initial_value, r)) (roots st)"
  let ?limit = "search_limit n (length (roots st)) search_k"
  have q: "list_all (\<lambda>e. 0 \<le> snd e \<and> snd e < n_nodes st) ?q"
    using ok by (simp add: forest_ok_def list_all_iff)
  obtain nns where g: "gather (weight ?q) st v ?limit ?q [] = Some (Inr nns)"
    and nns: "list_all (\<lambda>j. 0 \<le> j \<and> j < n_items st) nns"
    using gather_total [OF ok v q, of "[]" "weight ?q" ?limit] by auto
  have "list_all (\<lambda>j. 0 \<le> j \<and> j < n_items st) (sort nns)"
    using nns by (simp add: list_all_iff)
  then obtain out where r: "rerank st (take (f_dim st) v) (- 1) (sort nns) = Inr out"
    using rerank_total [OF ok] by blast
  have "\<exists>ids dists. get_all_nns (weight ?q) st v n search_k = Some (Inr (ids, dists))"
    using g r v by (simp add: get_all_nns_def Let_def)
  then show ?thesis by blast
qed

lemma forest_ok_st_forest: "forest_ok st_forest"
  by (simp add: forest_ok_def node_ok_def st_forest_def upt_rec node_n_descendants_def
      node_child_def node_children_def node_v_def node_base_def cell_at_def block_at_def
      s_cells_def s_bytes_def)

lemmas query_eval =
  get_nns_by_vector_def get_all_nns_def gather.simps search_limit_def int_of_size_t_def
  size_t_of_int_def pq_initial_value_def pq_distance_def node_n_descendants_def node_child_def
  node_children_def node_v_def node_base_def cell_at_def block_at_def margin_def
  s_cells_def s_bytes_def distance_def popcountll_def T_of_size_t_def

text \<open>
  Claim C4. On a well-formed forest, a query with a vector of \<open>f\<close> words returns: the
  traversal ends and reads no node outside the arena. Whenever \<open>get_nns_by_vector\<close>
  returns a result, on any index, its length is the smaller of \<open>n\<close> and the number of
  distinct candidates gathered by the traversal whose node has \<open>n_descendants == 1\<close>; the
  distances are in ascending order, and of two results at the same distance the one with the
  smaller id comes first.
\<close>

theorem get_nns_by_vector_length_and_order:
  "(forest_ok st \<and> f_dim st \<le> length v \<longrightarrow>
      (\<exists>fuel' ids' dists'.
         get_nns_by_vector fuel' st v n search_k = Some (Inr (ids', dists')))) \<and>
   (get_nns_by_vector fuel st v n search_k = Some (Inr (ids, dists)) \<longrightarrow>
      (\<exists>nns. gather fuel st v (search_limit n (length (roots st)) search_k)
                 (map (\<lambda>r. (pq_initial_value, r)) (roots st)) [] = Some (Inr nns) \<and>
           length ids = min n (card {j \<in> set nns. node_n_descendants st j = Inr 1}) \<and>
           length dists = length ids \<and> sorted dists \<and>
           (\<forall>a b. a < b \<and> b < length ids \<and> dists ! a = dists ! b \<longrightarrow> ids ! a < ids ! b)))"
  using get_all_nns_total [of st v n search_k] query_result_shape [of fuel st v n search_k ids dists]
  by (simp add: get_nns_by_vector_def)

theorem get_nns_by_vector_length_and_order_witness:
  "forest_ok st_forest \<and> f_dim st_forest \<le> length [0 :: cell] \<and>
   get_nns_by_vector 10 st_forest [0] 3 (- 1) = Some (Inr ([0, 1, 2], [2, 2, 4])) \<and>
   (\<exists>nns. gather 10 st_forest [0] (search_limit 3 (length (roots st_forest)) (- 1))
            (map (\<lambda>r. (pq_initial_value, r)) (roots st_forest)) [] = Some (Inr nns) \<and>
          length [0, 1, 2 :: int]
            = min 3 (card {j \<in> set nns. node_n_descendants st_forest j = Inr 1}) \<and>
          sorted [2, 2, 4 :: int])"
proof -
  have run: "get_nns_by_vector 10 st_forest [0] 3 (- 1) = Some (Inr ([0, 1, 2], [2, 2, 4]))"
    by (simp add: query_eval st_forest_def)
  have f: "f_dim st_forest \<le> length [0 :: cell]" by (simp add: st_forest_def)
  from get_nns_by_vector_length_and_order [of st_forest "[0]" 3 "- 1" 10 "[0, 1, 2]" "[2, 2, 4]"]
  show ?thesis
    using run f forest_ok_st_forest by blast
qed

section \<open>The default of \<open>search_k\<close>\<close>

text \<open>
  Claim C3, as stated, fails: on the built index \<open>st_forest\<close> (one tree), the query
  \<open>{8}\<close> with \<open>n = 2\<close> and \<open>search_k = -2\<close> gathers all three items and answers the
  ids 0 and 1, while \<open>search_k = n * n_trees = 2\<close> stops after two candidates and answers
  the ids 0 and 2.
\<close>

theorem negative_search_k_counterexample:
  "get_nns_by_vector 10 st_forest [8] 2 (- 2) = Some (Inr ([0, 1], [3, 3])) \<and>
   get_nns_by_vector 10 st_forest [8] 2 (int (2 * length (roots st_forest)))
     = Some (Inr ([0, 2], [3, 3]))"
  by (simp add: query_eval st_forest_def)

lemma size_t_int_round_trip:
  assumes "m < 2 ^ 31"
  shows "size_t_of_int (int_of_size_t (m mod 2 ^ 64)) = m" and "size_t_of_int (int m) = m"
proof -
  have small: "m < 2 ^ 64"
    using assms by (rule less_trans) simp
  have "0 \<le> int m" and "int m < 2 ^ 64" using small by simp_all
  then have m: "int m mod 2 ^ 64 = int m" by (rule mod_pos_pos_trivial)
  then show "size_t_of_int (int m) = m" by (simp add: size_t_of_int_def)
  have "int_of_size_t (m mod 2 ^ 64) = int m"
    using assms small by (simp add: int_of_size_t_def sint_of_nat_small)
  then show "size_t_of_int (int_of_size_t (m mod 2 ^ 64)) = m"
    using m by (simp add: size_t_of_int_def)
qed

lemma search_limit_minus_one:
  assumes "n * n_roots < 2 ^ 31"
  shows "search_limit n n_roots (- 1) = n * n_roots"
    and "search_limit n n_roots (int (n * n_roots)) = n * n_roots"
proof -
  define m where "m = n * n_roots"
  have m: "m < 2 ^ 31" using assms by (simp add: m_def)
  have "search_limit n n_roots (- 1) = size_t_of_int (int_of_size_t (m mod 2 ^ 64))"
    by (simp add: search_limit_def m_def)
  then show "search_limit n n_roots (- 1) = n * n_roots"
    using size_t_int_round_trip(1) [OF m] by (simp add: m_def)
  have "int m \<noteq> - 1" by simp
  then have "search_limit n n_roots (int m) = size_t_of_int (int m)"
    unfolding search_limit_def m_def by simp
  then show "search_limit n n_roots (int (n * n_roots)) = n * n_roots"
    using size_t_int_round_trip(2) [OF m] by (simp add: m_def)
qed

lemma search_limit_other_negative:
  assumes "- (2 ^ 31) \<le> search_k" and "search_k < - 1"
  shows "search_limit n n_roots search_k = 2 ^ 64 - nat (- search_k)"
proof -
  have "search_k mod 2 ^ 64 = (search_k + 2 ^ 64) mod 2 ^ 64" by simp
  also have "\<dots> = search_k + 2 ^ 64"
    using assms by (intro mod_pos_pos_trivial) auto
  finally have "nat (search_k mod 2 ^ 64) = 2 ^ 64 - nat (- search_k)"
    using assms by simp
  then show ?thesis using assms(2) by (simp add: search_limit_def size_t_of_int_def)
qed

text \<open>
  Claim C3, amended. Only \<open>search_k = -1\<close> is replaced: when \<open>n * n_trees\<close> fits an
  \<open>int\<close>, \<open>get_nns_by_vector\<close> and \<open>get_nns_by_item\<close> with \<open>search_k = -1\<close> answer as
  with \<open>search_k = n * n_trees\<close>, and the candidate loop is bounded by that product. Any
  other negative \<open>search_k\<close> is converted to the \<open>size_t\<close> value \<open>2\<^sup>6\<^sup>4 + search_k\<close>,
  which is the bound the candidate loop then uses.
\<close>

theorem search_k_minus_one_is_the_default:
  "(n * length (roots st) < 2 ^ 31 \<longrightarrow>
      get_nns_by_vector fuel st v n (- 1)
        = get_nns_by_vector fuel st v n (int (n * length (roots st))) \<and>
      get_nns_by_item fuel st item n (- 1)
        = get_nns_by_item fuel st item n (int (n * length (roots st))) \<and>
      search_limit n (length (roots st)) (- 1) = n * length (roots st)) \<and>
   (- (2 ^ 31) \<le> search_k \<and> search_k < - 1 \<longrightarrow>
      search_limit n (length (roots st)) search_k = 2 ^ 64 - nat (- search_k))"
proof -
  have "get_all_nns fuel st w n (- 1) = get_all_nns fuel st w n (int (n * length (roots st)))"
    if "n * length (roots st) < 2 ^ 31" for w
    using search_limit_minus_one [OF that] by (simp add: get_all_nns_def del: of_nat_mult)
  then show ?thesis
    using search_limit_minus_one(1) [of n "length (roots st)"]
      search_limit_other_negative [of search_k n "length (roots st)"]
    by (simp add: get_nns_by_vector_def get_nns_by_item_def del: of_nat_mult split: sum.splits)
qed

theorem search_k_minus_one_is_the_default_witness:
  "2 * length (roots st_forest) < 2 ^ 31 \<and>
   get_nns_by_vector 10 st_forest [8] 2 (- 1) = Some (Inr ([0, 2], [3, 3])) \<and>
   get_nns_by_vector 10 st_forest [8] 2 2 = Some (Inr ([0, 2], [3, 3])) \<and>
   search_limit 2 (length (roots st_forest)) (- 1) = 2 \<and>
   - (2 ^ 31) \<le> (- 2 :: int) \<and> (- 2 :: int) < - 1 \<and>
   search_limit 2 (length (roots st_forest)) (- 2) = 18446744073709551614"
proof -
  have r: "length (roots st_forest) = 1" by (simp add: st_forest_def)
  have run: "get_nns_by_vector 10 st_forest [8] 2 (- 1) = Some (Inr ([0, 2], [3, 3]))"
    by (simp add: query_eval st_forest_def)
  note t = search_k_minus_one_is_the_default [of 2 st_forest 10 "[8]" 0 "- 2"]
  from t have "get_nns_by_vector 10 st_forest [8] 2 (- 1) = get_nns_by_vector 10 st_forest [8] 2 2"
    and "search_limit 2 (length (roots st_forest)) (- 1) = 2"
    and "search_limit 2 (length (roots st_forest)) (- 2) = 18446744073709551614"
    by (simp_all add: r)
  then show ?thesis using run by (simp add: r)
qed

section \<open>Saving and loading\<close>





lemma st_a_eq:
  "load env0 os_a ''a.idx'' (JakubeIndex 1 ()) =
     (None, \<lparr>f_dim = 1, n_items = 2,
        nodes = Some (Mapped ([1, 2, 3, 3,  1, 1, 2, 9,  2, 0, 1, 28] @ replicate 1012 0)),
        n_nodes = 3, nodes_size = 3, roots = [2], K_grp = 1, random = (), verbose = False,
        built = True, fd = 3\<rparr>)"
  by (simp add: load_def unload_def read_cell_def JakubeIndex_def os_a_def env0_def K_of_def
      s_bytes_def upt_rec mapped_cells_def page_up_def)

lemma st_a_val:
  "st_a = \<lparr>f_dim = 1, n_items = 2,
        nodes = Some (Mapped ([1, 2, 3, 3,  1, 1, 2, 9,  2, 0, 1, 28] @ replicate 1012 0)),
        n_nodes = 3, nodes_size = 3, roots = [2], K_grp = 1, random = (), verbose = False,
        built = True, fd = 3\<rparr>"
  unfolding st_a_def st_a_eq by simp

lemma save_a:
  "save st_a ''b.idx'' os_a =
     (None, os_a\<lparr>files := (files os_a)(''b.idx'' \<mapsto>
        [1, 2, 3, 3, 1, 1, 2,  1, 2, 3, 3,  1, 1, 2, 9,  2, 0, 1, 28])\<rparr>)"
  unfolding st_a_val by (simp add: save_def Let_def os_a_def s_cells_def s_bytes_def)

lemma os_b_val:
  "os_b = os_a\<lparr>files := (files os_a)(''b.idx'' \<mapsto>
        [1, 2, 3, 3, 1, 1, 2,  1, 2, 3, 3,  1, 1, 2, 9,  2, 0, 1, 28])\<rparr>"
  unfolding os_b_def save_a by simp

lemma st_b_eq:
  "load env0 os_b ''b.idx'' (JakubeIndex 1 ()) =
     (None, \<lparr>f_dim = 1, n_items = 2,
        nodes = Some (Mapped ([1, 2, 3, 3,  1, 1, 2, 1,  2, 3, 3, 1,  1, 2, 9, 2,  0, 1, 28]
                               @ replicate 1005 0)),
        n_nodes = 3, nodes_size = 3, roots = [2], K_grp = 1, random = (), verbose = False,
        built = True, fd = 3\<rparr>)"
  unfolding os_b_val
  by (simp add: load_def unload_def read_cell_def JakubeIndex_def os_a_def env0_def
      K_of_def s_bytes_def upt_rec mapped_cells_def page_up_def)

lemma st_b_val:
  "st_b = \<lparr>f_dim = 1, n_items = 2,
        nodes = Some (Mapped ([1, 2, 3, 3,  1, 1, 2, 1,  2, 3, 3, 1,  1, 2, 9, 2,  0, 1, 28]
                               @ replicate 1005 0)),
        n_nodes = 3, nodes_size = 3, roots = [2], K_grp = 1, random = (), verbose = False,
        built = True, fd = 3\<rparr>"
  unfolding st_b_def st_b_eq by simp

text \<open>
  Claim C5 (the code does not do this). The built index \<open>st_a\<close>, a well-formed forest
  over two items, is saved as \<open>b.idx\<close> and
  a fresh index with the same \<open>f\<close> loads that file; both calls succeed. The mapping of the
  loaded index starts at the header of the file, not at the saved arena, so item 1 reads
  \<open>{1}\<close> where the saved index holds \<open>{9}\<close>, and the distance between the items 0 and 1
  is 1 instead of 2.
\<close>

theorem save_load_round_trip_fails:
  "fst (load env0 os_a ''a.idx'' (JakubeIndex 1 ())) = None \<and> built st_a \<and> forest_ok st_a \<and>
   fst (save st_a ''b.idx'' os_a) = None \<and>
   fst (load env0 os_b ''b.idx'' (JakubeIndex 1 ())) = None \<and> built st_b \<and>
   get_item st_a 1 = Inr [9] \<and> get_item st_b 1 = Inr [1] \<and>
   get_distance st_a 0 1 = Inr 2 \<and> get_distance st_b 0 1 = Inr 1 \<and>
   get_nns_by_vector 10 st_a [9] 1 (- 1) = Some (Inr ([1], [0]))"
proof -
  have "fst (load env0 os_a ''a.idx'' (JakubeIndex 1 ())) = None"
    and "fst (save st_a ''b.idx'' os_a) = None"
    and "fst (load env0 os_b ''b.idx'' (JakubeIndex 1 ())) = None"
    unfolding st_a_eq save_a st_b_eq by simp_all
  moreover have "built st_a" "get_item st_a 1 = Inr [9]" "get_distance st_a 0 1 = Inr 2"
    "get_nns_by_vector 10 st_a [9] 1 (- 1) = Some (Inr ([1], [0]))"
    unfolding st_a_val by (simp_all add: get_item_def get_distance_def query_eval)
  moreover have "forest_ok st_a"
    unfolding st_a_val
    by (simp add: forest_ok_def node_ok_def upt_rec node_n_descendants_def
        node_child_def node_children_def node_v_def node_base_def cell_at_def block_at_def
        s_cells_def s_bytes_def)
  moreover have "built st_b" "get_item st_b 1 = Inr [1]" "get_distance st_b 0 1 = Inr 1"
    unfolding st_b_val by (simp_all add: get_item_def get_distance_def query_eval)
  ultimately show ?thesis by simp
qed

section \<open>The distance of two items\<close>

text \<open>
  Claim C7 (the code does not do this). With \<open>f = 1\<close> and the items \<open>{0xFFFFFFFF}\<close> and
  \<open>{0}\<close>, whose XOR has 32 one bits, \<open>get_distance(0, 1)\<close> is 64: the \<open>int\<close> XOR is
  sign-extended to 64 bits before its bits are counted. The claim gives 32, and the bound
  \<open>f * 32 = 32\<close>.
\<close>

theorem get_distance_counts_sign_extension:
  "add_items env0 [(0, [4294967295]), (1, [0])] (JakubeIndex 1 ()) = Inr st_ones \<and>
   get_item st_ones 0 = Inr [4294967295] \<and> get_item st_ones 1 = Inr [0] \<and>
   popcount_nat (unat ((4294967295 :: cell) XOR 0)) = 32 \<and>
   get_distance st_ones 0 1 = Inr 64 \<and> f_dim st_ones * 32 = 32"
proof -
  have "add_items env0 [(0, [4294967295]), (1, [0])] (JakubeIndex 1 ()) = Inr st_ones"
    by (simp add: add_item_eval env0_def st_ones_def)
  moreover have "get_item st_ones 0 = Inr [4294967295]" "get_item st_ones 1 = Inr [0]"
    "get_distance st_ones 0 1 = Inr 64" "f_dim st_ones * 32 = 32"
    by (simp_all add: get_item_def get_distance_def query_eval st_ones_def)
  moreover have "popcount_nat (unat ((4294967295 :: cell) XOR 0)) = 32"
    by (simp add: unsigned_minus_1_eq_mask mask_eq_exp_minus_1)
  ultimately show ?thesis by simp
qed

end
